theory Spec2Isabelle
  imports Complex_Main "HOL-Library.Word"
begin

section \<open>Python strings and numbers\<close>

text \<open>
  A Python \<open>str\<close> is a sequence of Unicode code points, so a text is a list of code
  points (\<open>nat\<close>); the byte-order mark \<open>U+FEFF\<close> is one element. \<open>u\<close> reads an ASCII
  literal as such a text.
\<close>

type_synonym ustr = "nat list"

definition u :: "string \<Rightarrow> ustr" where
  "u s = map of_char s"

text \<open>
  The time values of the transcription script are Python floats, that is IEEE doubles.
  A double is modelled by the rational number it denotes. An operation whose result is
  always a double again is modelled by the exact operation; an operation whose exact
  result need not be a double is followed by the rounding \<open>fl\<close> to the nearest
  double, ties to the even significand.
\<close>

text \<open>\<open>int(x)\<close> truncates towards zero.\<close>

definition py_int :: "rat \<Rightarrow> int" where
  "py_int x = (if 0 \<le> x then \<lfloor>x\<rfloor> else \<lceil>x\<rceil>)"

text \<open>\<open>round(x)\<close> with one argument: to the nearest integer, ties to the even one.\<close>

definition py_round :: "rat \<Rightarrow> int" where
  "py_round x =
     (let f = \<lfloor>x\<rfloor>; d = x - of_int f
      in if d < 1 / 2 then f
         else if 1 / 2 < d then f + 1
         else if even f then f else f + 1)"

text \<open>
  Rounding to a double. A positive \<open>x\<close> below \<open>2^53\<close> is doubled until it reaches
  \<open>2^52\<close>, at most 1074 times (the smallest exponent of a double); a larger one is
  halved until it is below \<open>2^53\<close>. What is reached is rounded to an integer, the
  significand, and scaled back. Values beyond the largest double (which become infinite)
  do not occur here and are not modelled.
\<close>

function scale_up :: "nat \<Rightarrow> rat \<Rightarrow> nat \<times> rat" where
  "scale_up k x = (if 2 ^ 52 \<le> x \<or> 1074 \<le> k then (k, x) else scale_up (Suc k) (2 * x))"
  by pat_completeness auto
termination
  by (relation "measure (\<lambda>(k, x). 1074 - k)") auto

declare scale_up.simps [simp del]

function scale_down :: "nat \<Rightarrow> rat \<Rightarrow> nat \<times> rat" where
  "scale_down j x = (if x < 2 ^ 53 then (j, x) else scale_down (Suc j) (x / 2))"
  by pat_completeness auto
termination
proof (relation "measure (\<lambda>(j, x). nat \<lfloor>x\<rfloor>)")
  show "wf (measure (\<lambda>(j, x). nat \<lfloor>x\<rfloor>))" by simp
next
  fix j :: nat and x :: rat
  assume "\<not> x < 2 ^ 53"
  then have x: "2 \<le> x" by simp
  then have "x / 2 + 1 \<le> x" by simp
  then have "\<lfloor>x / 2 + 1\<rfloor> \<le> \<lfloor>x\<rfloor>" by (rule floor_mono)
  then have "\<lfloor>x / 2\<rfloor> < \<lfloor>x\<rfloor>" by simp
  moreover have "0 < \<lfloor>x\<rfloor>" using x by simp
  ultimately show "((Suc j, x / 2), (j, x)) \<in> measure (\<lambda>(j, x). nat \<lfloor>x\<rfloor>)" by simp
qed

declare scale_down.simps [simp del]

definition fl_pos :: "rat \<Rightarrow> rat" where
  "fl_pos x =
     (if x < 2 ^ 53
      then (case scale_up 0 x of (k, y) \<Rightarrow> of_int (py_round y) / 2 ^ k)
      else (case scale_down 0 x of (j, y) \<Rightarrow> of_int (py_round y) * 2 ^ j))"

definition fl :: "rat \<Rightarrow> rat" where
  "fl x = (if x = 0 then 0 else if x < 0 then - fl_pos (- x) else fl_pos x)"

text \<open>The rationals that are doubles.\<close>

definition is_double :: "rat \<Rightarrow> bool" where
  "is_double x = (fl x = x)"

text \<open>
  \<open>x % d\<close> on floats, for \<open>d \<noteq> 0\<close>: the C function \<open>fmod\<close>, which is exact and
  has the sign of \<open>x\<close>; when it is not zero and its sign is not the sign of \<open>d\<close>, \<open>d\<close>
  is added to it, and this sum is rounded.
\<close>

definition fmod :: "rat \<Rightarrow> rat \<Rightarrow> rat" where
  "fmod x d = x - d * of_int (py_int (x / d))"

definition py_mod :: "rat \<Rightarrow> rat \<Rightarrow> rat" where
  "py_mod x d =
     (let r = fmod x d
      in if r \<noteq> 0 \<and> ((d < 0) \<noteq> (r < 0)) then fl (r + d) else r)"

text \<open>
  \<open>x // d\<close> on floats: the floor of the quotient. For a double \<open>x\<close> of magnitude below
  \<open>2^53\<close> and \<open>d\<close> one of 3600 and 60, the only uses here, every step of its
  computation (\<open>x - fmod(x, d)\<close>, the division by \<open>d\<close>, the subtraction of 1, the floor)
  has an integer result below \<open>2^53\<close> and is exact.
\<close>

definition py_floordiv :: "rat \<Rightarrow> rat \<Rightarrow> rat" where
  "py_floordiv x d = of_int \<lfloor>x / d\<rfloor>"

text \<open>Decimal digits of a natural number, as \<open>str(n)\<close> prints them.\<close>

definition digit :: "nat \<Rightarrow> nat" where
  "digit d = 48 + d"

fun str_nat :: "nat \<Rightarrow> ustr" where
  "str_nat n = (if n < 10 then [digit n] else str_nat (n div 10) @ [digit (n mod 10)])"

declare str_nat.simps [simp del]

definition zfill :: "nat \<Rightarrow> ustr \<Rightarrow> ustr" where
  "zfill w s = replicate (w - length s) 48 @ s"

text \<open>
  The format specification \<open>{n:0wd}\<close>: decimal, zero-padded to a width of at least
  \<open>w\<close>, the sign counted in the width and written before the zeros.
\<close>

definition fmt_d :: "nat \<Rightarrow> int \<Rightarrow> ustr" where
  "fmt_d w n =
     (if n < 0 then 45 # zfill (w - 1) (str_nat (nat (- n)))
      else zfill w (str_nat (nat n)))"

text \<open>
  The format specification \<open>{x:06.3f}\<close> on a value \<open>x \<ge> 0\<close> (the only values the
  script formats so, being \<open>t % 60\<close>): three decimals, correctly rounded with ties to
  even, zero-padded to six characters.
\<close>

definition fmt_06_3f :: "rat \<Rightarrow> ustr" where
  "fmt_06_3f x =
     (let n = nat (py_round (x * 1000))
      in zfill 6 (str_nat (n div 1000) @ [46] @ zfill 3 (str_nat (n mod 1000))))"

section \<open>Transcription script: timestamps and subtitle files\<close>

text \<open>
  \<^verbatim>\<open>
  def sec_to_srt(t: float) -> str:
      h=int(t//3600); m=int((t%3600)//60); s=int(t%60); ms=int(round((t-int(t))*1000))
      return f"{h:02d}:{m:02d}:{s:02d},{ms:03d}"
  \<close>
  \<open>t - int(t)\<close> is a double for every double \<open>t\<close>; its product with 1000 is rounded.
\<close>

definition srt_h :: "rat \<Rightarrow> int" where
  "srt_h t = py_int (py_floordiv t 3600)"

definition srt_m :: "rat \<Rightarrow> int" where
  "srt_m t = py_int (py_floordiv (py_mod t 3600) 60)"

definition srt_s :: "rat \<Rightarrow> int" where
  "srt_s t = py_int (py_mod t 60)"

definition srt_ms :: "rat \<Rightarrow> int" where
  "srt_ms t = py_round (fl ((t - of_int (py_int t)) * 1000))"

definition sec_to_srt :: "rat \<Rightarrow> ustr" where
  "sec_to_srt t =
     fmt_d 2 (srt_h t) @ [58] @ fmt_d 2 (srt_m t) @ [58] @ fmt_d 2 (srt_s t)
       @ [44] @ fmt_d 3 (srt_ms t)"

text \<open>
  \<^verbatim>\<open>
  def sec_to_vtt(t: float) -> str:
      h=int(t//3600); m=int((t%3600)//60); sec=(t%60)
      return f"{h:02d}:{m:02d}:{sec:06.3f}"
  \<close>
\<close>

definition sec_to_vtt :: "rat \<Rightarrow> ustr" where
  "sec_to_vtt t =
     fmt_d 2 (srt_h t) @ [58] @ fmt_d 2 (srt_m t) @ [58] @ fmt_06_3f (py_mod t 60)"

text \<open>A recognised segment: \<open>{"start": .., "end": .., "text": ..}\<close>.\<close>

record segment =
  seg_start :: rat
  seg_end :: rat
  seg_text :: ustr

definition arrow :: ustr where
  "arrow = u '' --> ''"

text \<open>
  What \<open>transcribe_one\<close> writes into the \<open>.srt\<close> file: for the \<open>i\<close>-th segment,
  counted from 1, \<open>f"{i}\n{sec_to_srt(start)} --> {sec_to_srt(end)}\n{text}\n\n"\<close>.
\<close>

fun srt_blocks :: "nat \<Rightarrow> segment list \<Rightarrow> ustr" where
  "srt_blocks i [] = []"
| "srt_blocks i (s # ss) =
     (str_nat i @ [10] @ sec_to_srt (seg_start s) @ arrow @ sec_to_srt (seg_end s)
        @ [10] @ seg_text s @ [10, 10]) @ srt_blocks (Suc i) ss"

definition srt_file :: "segment list \<Rightarrow> ustr" where
  "srt_file segments = srt_blocks 1 segments"

text \<open>
  What it writes into the \<open>.vtt\<close> file: \<open>"WEBVTT\n\n"\<close>, then for each segment
  \<open>f"{sec_to_vtt(start)} --> {sec_to_vtt(end)}\n{text}\n\n"\<close>.
\<close>

fun vtt_blocks :: "segment list \<Rightarrow> ustr" where
  "vtt_blocks [] = []"
| "vtt_blocks (s # ss) =
     (sec_to_vtt (seg_start s) @ arrow @ sec_to_vtt (seg_end s)
        @ [10] @ seg_text s @ [10, 10]) @ vtt_blocks ss"

definition vtt_file :: "segment list \<Rightarrow> ustr" where
  "vtt_file segments = u ''WEBVTT'' @ [10, 10] @ vtt_blocks segments"

text \<open>
  The cue timestamp that the subtitle formats prescribe: two digits each for hours,
  minutes and seconds, a comma, three digits of milliseconds. It is the form the
  rendering is compared with.
\<close>

definition hhmmss_mmm :: "nat \<Rightarrow> nat \<Rightarrow> nat \<Rightarrow> nat \<Rightarrow> ustr" where
  "hhmmss_mmm h m s ms =
     [digit (h div 10), digit (h mod 10), 58, digit (m div 10), digit (m mod 10), 58,
      digit (s div 10), digit (s mod 10), 44,
      digit (ms div 100), digit (ms div 10 mod 10), digit (ms mod 10)]"

subsection \<open>Credentials of the transcription script\<close>

text \<open>
  \<^verbatim>\<open>
  # (comment in the source: prefer Region, then Endpoint)
  speech_key = os.environ.get("SPEECH_KEY")
  speech_region = os.environ.get("SPEECH_REGION")
  speech_endpoint = os.environ.get("SPEECH_ENDPOINT")
  if not speech_key: raise SystemExit(..)
  if not (speech_region or speech_endpoint): raise SystemExit(..)
  if speech_endpoint:
      speech_config = speechsdk.SpeechConfig(subscription=speech_key, endpoint=speech_endpoint)
  else:
      speech_config = speechsdk.SpeechConfig(subscription=speech_key, region=speech_region)
  \<close>
  The environment is a map from variable names to values; a variable that is unset or
  empty is false in a Python condition.
\<close>

type_synonym environ = "ustr \<rightharpoonup> ustr"

datatype speech_config =
    Config_Endpoint ustr ustr  \<comment> \<open>subscription, endpoint\<close>
  | Config_Region ustr ustr  \<comment> \<open>subscription, region\<close>

datatype config_exit = Missing_Key | Missing_Region_And_Endpoint

definition truthy :: "ustr option \<Rightarrow> bool" where
  "truthy v = (case v of None \<Rightarrow> False | Some s \<Rightarrow> s \<noteq> [])"

definition transcribe_one_config :: "environ \<Rightarrow> config_exit + speech_config" where
  "transcribe_one_config env =
     (let speech_key = env (u ''SPEECH_KEY'');
          speech_region = env (u ''SPEECH_REGION'');
          speech_endpoint = env (u ''SPEECH_ENDPOINT'')
      in if \<not> truthy speech_key then Inl Missing_Key
         else if \<not> (truthy speech_region \<or> truthy speech_endpoint)
           then Inl Missing_Region_And_Endpoint
         else if truthy speech_endpoint
           then Inr (Config_Endpoint (case speech_key of Some k \<Rightarrow> k | None \<Rightarrow> [])
                       (case speech_endpoint of Some e \<Rightarrow> e | None \<Rightarrow> []))
         else Inr (Config_Region (case speech_key of Some k \<Rightarrow> k | None \<Rightarrow> [])
                     (case speech_region of Some r \<Rightarrow> r | None \<Rightarrow> [])))"

section \<open>Synthesis script: concatenating audio files\<close>

text \<open>
  \<^verbatim>\<open>
  def concat_wavs(wav_paths, out_wav):
      if not wav_paths:
          raise ValueError("No WAV parts to concatenate.")
      params = None
      data_frames = []
      for p in wav_paths:
          with contextlib.closing(wave.open(p, 'rb')) as w:
              cur = (w.getnchannels(), w.getsampwidth(), w.getframerate())
              if params is None:
                  params = cur
              elif cur != params:
                  raise ValueError(f"WAV format mismatch in {p}: {cur} vs {params}")
              data_frames.append(w.readframes(w.getnframes()))
      ...
      with contextlib.closing(wave.open(out_wav, 'wb')) as out:
          out.setnchannels(params[0])
          out.setsampwidth(params[1])
          out.setframerate(params[2])
          for frames in data_frames:
              out.writeframes(frames)
  \<close>
  The files are an explicit store from paths to files. A file that the \<open>wave\<close> module
  can read is what it reads from it: the three format parameters and the bytes that
  \<open>readframes(getnframes())\<close> returns. Any other file is unreadable, and a path with no
  entry has no file; \<open>wave.open\<close> raises on both.
\<close>

record wav_file =
  nchannels :: int
  sampwidth :: int
  framerate :: int
  frames :: "8 word list"

datatype file_entry = Wav wav_file | Unreadable

type_synonym wav_params = "int \<times> int \<times> int"

type_synonym file_store = "ustr \<rightharpoonup> file_entry"

datatype concat_error =
    No_Parts  \<comment> \<open>\<open>ValueError("No WAV parts to concatenate.")\<close>\<close>
  | Open_Failed ustr  \<comment> \<open>\<open>wave.open\<close> raises on this path\<close>
  | Format_Mismatch ustr wav_params wav_params
      \<comment> \<open>\<open>ValueError(f"WAV format mismatch in {p}: {cur} vs {params}")\<close>\<close>
  | Params_Unset  \<comment> \<open>\<open>params[0]\<close> on \<open>None\<close>\<close>
  | Write_Failed  \<comment> \<open>\<open>wave.Error\<close> or \<open>struct.error\<close> from the writer\<close>

definition getparams :: "wav_file \<Rightarrow> wav_params" where
  "getparams w = (nchannels w, sampwidth w, framerate w)"

text \<open>The reading loop, with its two variables \<open>params\<close> and \<open>data_frames\<close>.\<close>

fun read_parts ::
  "file_store \<Rightarrow> ustr list \<Rightarrow> wav_params option \<Rightarrow> 8 word list list
     \<Rightarrow> concat_error + (wav_params option \<times> 8 word list list)" where
  "read_parts fs [] params data_frames = Inr (params, data_frames)"
| "read_parts fs (p # ps) params data_frames =
     (case fs p of
        None \<Rightarrow> Inl (Open_Failed p)
      | Some Unreadable \<Rightarrow> Inl (Open_Failed p)
      | Some (Wav w) \<Rightarrow>
          (let cur = getparams w
           in case params of
                None \<Rightarrow> read_parts fs ps (Some cur) (data_frames @ [frames w])
              | Some pr \<Rightarrow>
                  if cur \<noteq> pr then Inl (Format_Mismatch p cur pr)
                  else read_parts fs ps params (data_frames @ [frames w])))"

subsection \<open>The writer of the \<open>wave\<close> module\<close>

text \<open>
  The writer (\<open>Wave_write\<close> of Python 3.11) is modelled as far as \<open>concat_wavs\<close> uses
  it. \<open>wave.open(out_wav, 'wb')\<close> creates the file, empty. The three setters refuse a
  channel count below 1, a sample width outside 1 to 4 and a frame rate that is not
  positive. The first \<open>writeframes\<close> writes the header, whose fields are packed into 16
  and 32 bits: \<open>struct.pack\<close> raises when one does not fit, after the four bytes
  \<open>RIFF\<close> have been written. Every \<open>writeframes\<close> appends its bytes and then, when the
  data length of the header differs from the bytes written, patches the two length
  fields of the header; the patch raises when \<open>36 + datawritten\<close> does not fit 32 bits.
  An exception leaves the \<open>with\<close> block through \<open>close\<close>, which repeats the failed step
  and raises again.
\<close>

definition framesize :: "wav_params \<Rightarrow> nat" where
  "framesize pr = (case pr of (c, w, r) \<Rightarrow> nat (c * w))"

text \<open>
  \<open>struct.pack('<L4s4sLHHLLHH4s', 36 + datalength, .., nchannels, framerate,
  nchannels * framerate * sampwidth, nchannels * sampwidth, sampwidth * 8, ..)\<close>
  succeeds.
\<close>

definition header_fits :: "wav_params \<Rightarrow> nat \<Rightarrow> bool" where
  "header_fits pr datalength =
     (case pr of (c, w, r) \<Rightarrow>
        36 + int datalength < 2 ^ 32 \<and> c < 2 ^ 16 \<and> r < 2 ^ 32 \<and> c * r * w < 2 ^ 32
        \<and> c * w < 2 ^ 16 \<and> w * 8 < 2 ^ 16)"

text \<open>
  What the reader gets from a file whose header gives the data length \<open>h\<close> and that
  holds the data bytes \<open>d\<close>: \<open>h // framesize\<close> frames.
\<close>

definition read_back :: "wav_params \<Rightarrow> nat \<Rightarrow> 8 word list \<Rightarrow> wav_file" where
  "read_back pr h d =
     (case pr of (c, w, r) \<Rightarrow>
        \<lparr>nchannels = c, sampwidth = w, framerate = r,
         frames = take ((h div framesize pr) * framesize pr) d\<rparr>)"

text \<open>
  The writing loop \<open>for frames in data_frames: out.writeframes(frames)\<close> and the
  \<open>close\<close> after it. \<open>hl\<close> is the data length in the header on disk, if the header is
  written; \<open>d\<close> are the data bytes on disk. The result tells whether an exception was
  raised and what the output file is afterwards.
\<close>

fun write_frames ::
  "wav_params \<Rightarrow> nat option \<Rightarrow> 8 word list \<Rightarrow> 8 word list list \<Rightarrow> bool \<times> file_entry" where
  "write_frames pr hl d [] =
     (case hl of
        None \<Rightarrow> if header_fits pr 0 then (False, Wav (read_back pr 0 d)) else (True, Unreadable)
      | Some h \<Rightarrow>
          if h = length d then (False, Wav (read_back pr h d))
          else if 36 + int (length d) < 2 ^ 32 then (False, Wav (read_back pr (length d) d))
          else (True, Wav (read_back pr h d)))"
| "write_frames pr hl d (fr # frs) =
     (case (case hl of
              Some h \<Rightarrow> Some h
            | None \<Rightarrow>
                (let datalength = (length fr div framesize pr) * framesize pr
                 in if header_fits pr datalength then Some datalength else None)) of
        None \<Rightarrow> (True, Unreadable)
      | Some h \<Rightarrow>
          (let d' = d @ fr
           in if h = length d' then write_frames pr (Some h) d' frs
              else if 36 + int (length d') < 2 ^ 32
                then write_frames pr (Some (length d')) d' frs
              else (True, Wav (read_back pr h d'))))"

definition wave_write :: "wav_params \<Rightarrow> 8 word list list \<Rightarrow> bool \<times> file_entry" where
  "wave_write pr data_frames =
     (case pr of (c, w, r) \<Rightarrow>
        if c < 1 \<or> w < 1 \<or> 4 < w \<or> r \<le> 0 then (True, Unreadable)
        else write_frames pr None [] data_frames)"

text \<open>
  \<open>concat_wavs\<close> returns nothing; what it does is the error it raises, if any, and
  the store it leaves. The reading loop precedes the opening of the output file.
\<close>

definition concat_wavs ::
  "file_store \<Rightarrow> ustr list \<Rightarrow> ustr \<Rightarrow> concat_error option \<times> file_store" where
  "concat_wavs fs wav_paths out_wav =
     (if wav_paths = [] then (Some No_Parts, fs)
      else case read_parts fs wav_paths None [] of
             Inl e \<Rightarrow> (Some e, fs)
           | Inr (params, data_frames) \<Rightarrow>
               (case params of
                  None \<Rightarrow> (Some Params_Unset, fs(out_wav \<mapsto> Unreadable))
                | Some pr \<Rightarrow>
                    (case wave_write pr data_frames of
                       (raised, entry) \<Rightarrow>
                         (if raised then Some Write_Failed else None,
                          fs(out_wav \<mapsto> entry)))))"

text \<open>
  For the statements about it: a path holds a readable file with given parameters; a
  path holds a readable file; the frame bytes of the file at a path; the parameters
  that the setters and the header accept.
\<close>

definition has_params :: "file_store \<Rightarrow> wav_params \<Rightarrow> ustr \<Rightarrow> bool" where
  "has_params fs pr p = (case fs p of Some (Wav w) \<Rightarrow> getparams w = pr | _ \<Rightarrow> False)"

definition readable :: "file_store \<Rightarrow> ustr \<Rightarrow> bool" where
  "readable fs p = (case fs p of Some (Wav w) \<Rightarrow> True | _ \<Rightarrow> False)"

definition frames_at :: "file_store \<Rightarrow> ustr \<Rightarrow> 8 word list" where
  "frames_at fs p = (case fs p of Some (Wav w) \<Rightarrow> frames w | _ \<Rightarrow> [])"

definition writer_accepts :: "wav_params \<Rightarrow> bool" where
  "writer_accepts pr =
     (case pr of (c, w, r) \<Rightarrow>
        1 \<le> c \<and> c < 2 ^ 16 \<and> 1 \<le> w \<and> w \<le> 4 \<and> 0 < r \<and> r < 2 ^ 32
        \<and> c * r * w < 2 ^ 32 \<and> c * w < 2 ^ 16)"

section \<open>Synthesis script: the call with retries\<close>

text \<open>\<open>needle in haystack\<close> on strings.\<close>

fun is_substr :: "ustr \<Rightarrow> ustr \<Rightarrow> bool" where
  "is_substr p [] = (p = [])"
| "is_substr p (c # cs) = (take (length p) (c # cs) = p \<or> is_substr p cs)"

text \<open>
  \<open>err.lower()\<close>, on the ASCII letters. Python lowers other code points too, but none
  of them becomes one of the letters of \<open>timeout\<close> next to another letter of it
  (\<open>U+0130\<close> becomes \<open>i\<close> followed by \<open>U+0307\<close>), so the test below gives the
  same answer.
\<close>

definition ascii_lower :: "nat \<Rightarrow> nat" where
  "ascii_lower c = (if 65 \<le> c \<and> c \<le> 90 then c + 32 else c)"

definition str_lower :: "ustr \<Rightarrow> ustr" where
  "str_lower s = map ascii_lower s"

text \<open>
  What one call \<open>synthesizer.speak_ssml_async(ssml_text).get()\<close> does: it raises, or
  returns a result whose reason is \<open>SynthesizingAudioCompleted\<close>, \<open>Canceled\<close> (with
  \<open>str(code)\<close> of the cancellation's error code and its error details, \<open>""\<close> when it
  has none) or something else.
\<close>

datatype speak_outcome =
    Raises
  | Synthesizing_Audio_Completed
  | Canceled ustr ustr  \<comment> \<open>\<open>str(code)\<close>, \<open>err\<close>\<close>
  | Other_Reason

text \<open>\<open>"ConnectionFailure" in str(code) or "timeout" in err.lower()\<close>\<close>

definition transient :: "ustr \<Rightarrow> ustr \<Rightarrow> bool" where
  "transient code err =
     (is_substr (u ''ConnectionFailure'') code \<or> is_substr (u ''timeout'') (str_lower err))"

text \<open>A failure that the loop retries: an exception, or a transient cancellation.\<close>

fun retryable :: "speak_outcome \<Rightarrow> bool" where
  "retryable Raises = True"
| "retryable (Canceled code err) = transient code err"
| "retryable Synthesizing_Audio_Completed = False"
| "retryable Other_Reason = False"

text \<open>
  The outcome of a run: the value returned, the value of \<open>attempt\<close> at the return (the
  number of calls made), and the arguments of \<open>time.sleep\<close> in order.
\<close>

record synth_run =
  returned :: bool
  attempts :: int
  slept :: "rat list"

text \<open>
  \<^verbatim>\<open>
  attempt = 0
  while attempt <= retries:
      attempt += 1
      try:
          result = synthesizer.speak_ssml_async(ssml_text).get()
      except Exception as ex:
          time.sleep(1.5 * attempt)
          continue
      if result.reason == speechsdk.ResultReason.SynthesizingAudioCompleted:
          return True
      elif result.reason == speechsdk.ResultReason.Canceled:
          ...
          if "ConnectionFailure" in str(code) or "timeout" in err.lower():
              if attempt <= retries:
                  time.sleep(1.5 * attempt)
                  continue
          return False
  return False
  \<close>
  The remote service is a function from the number of the attempt to what the call of
  that attempt does.
\<close>

function synth_loop :: "(int \<Rightarrow> speak_outcome) \<Rightarrow> int \<Rightarrow> int \<Rightarrow> rat list \<Rightarrow> synth_run" where
  "synth_loop speak retries attempt sl =
     (if attempt \<le> retries then
        (let attempt' = attempt + 1
         in case speak attempt' of
              Raises \<Rightarrow> synth_loop speak retries attempt' (sl @ [3 / 2 * of_int attempt'])
            | Synthesizing_Audio_Completed \<Rightarrow>
                \<lparr>returned = True, attempts = attempt', slept = sl\<rparr>
            | Canceled code err \<Rightarrow>
                if transient code err \<and> attempt' \<le> retries
                then synth_loop speak retries attempt' (sl @ [3 / 2 * of_int attempt'])
                else \<lparr>returned = False, attempts = attempt', slept = sl\<rparr>
            | Other_Reason \<Rightarrow> synth_loop speak retries attempt' sl)
      else \<lparr>returned = False, attempts = attempt, slept = sl\<rparr>)"
  by pat_completeness auto
termination
  by (relation "measure (\<lambda>(speak, retries, attempt, sl). nat (retries + 1 - attempt))") auto

declare synth_loop.simps [simp del]

datatype synth_error = Sdk_Not_Installed

text \<open>
  \<open>synthesize_to_wav\<close>: \<open>RuntimeError\<close> when the SDK could not be imported, else the
  loop from \<open>attempt = 0\<close>.
\<close>

definition synthesize_to_wav :: "bool \<Rightarrow> (int \<Rightarrow> speak_outcome) \<Rightarrow> int \<Rightarrow> synth_error + synth_run" where
  "synthesize_to_wav sdk_installed speak retries =
     (if \<not> sdk_installed then Inl Sdk_Not_Installed
      else Inr (synth_loop speak retries 0 []))"

section \<open>Synthesis script: the regular expressions\<close>

text \<open>
  The patterns of the script are matched by Python's \<open>re\<close> module on \<open>str\<close>, that is
  with its Unicode character classes. Each pattern is written out below as the function
  that decides whether it matches at the start of a text and returns what follows the
  match. In every pattern a greedy \<open>\s*\<close> or \<open>[^>]*\<close> is followed by a character
  outside its class, so backtracking into it never finds another match and the function
  is the pattern.
\<close>

text \<open>\<open>\s\<close>: the code points for which \<open>str.isspace\<close> holds.\<close>

definition is_space :: "nat \<Rightarrow> bool" where
  "is_space c =
     ((9 \<le> c \<and> c \<le> 13) \<or> (28 \<le> c \<and> c \<le> 32) \<or> c = 133 \<or> c = 160 \<or> c = 5760
      \<or> (8192 \<le> c \<and> c \<le> 8202) \<or> c = 8232 \<or> c = 8233 \<or> c = 8239 \<or> c = 8287
      \<or> c = 12288)"

definition skip_ws :: "ustr \<Rightarrow> ustr" where
  "skip_ws s = dropWhile is_space s"

text \<open>
  A lower-case ASCII letter \<open>p\<close> of a pattern compiled with \<open>re.I\<close> matches the code
  points whose lower case is \<open>p\<close> or has the same upper case as \<open>p\<close>: \<open>p\<close> itself,
  its capital, and for \<open>s\<close>, \<open>k\<close> and \<open>i\<close> also \<open>U+017F\<close>, \<open>U+212A\<close>, and
  \<open>U+0130\<close> and \<open>U+0131\<close>.
\<close>

definition ci_eq :: "nat \<Rightarrow> nat \<Rightarrow> bool" where
  "ci_eq p c =
     (c = p \<or> c + 32 = p \<or> (p = 115 \<and> c = 383) \<or> (p = 107 \<and> c = 8490)
      \<or> (p = 105 \<and> (c = 304 \<or> c = 305)))"

fun match_ci :: "ustr \<Rightarrow> ustr \<Rightarrow> ustr option" where
  "match_ci [] s = Some s"
| "match_ci (p # ps) [] = None"
| "match_ci (p # ps) (c # cs) = (if ci_eq p c then match_ci ps cs else None)"

text \<open>A literal of a pattern compiled without \<open>re.I\<close>.\<close>

definition match_lit :: "ustr \<Rightarrow> ustr \<Rightarrow> ustr option" where
  "match_lit p s = (if take (length p) s = p then Some (drop (length p) s) else None)"

text \<open>
  \<open>\b\<close> between the code point \<open>prev\<close> and the text \<open>rest\<close>: exactly one side is a
  word character. The word characters are those of Unicode (alphanumerics and the
  underscore); the table is the parameter \<open>isw\<close> of everything below.
\<close>

definition word_boundary :: "(nat \<Rightarrow> bool) \<Rightarrow> nat \<Rightarrow> ustr \<Rightarrow> bool" where
  "word_boundary isw prev rest = (isw prev \<noteq> (case rest of [] \<Rightarrow> False | c # _ \<Rightarrow> isw c))"

text \<open>
  \<open><\s*NAME\b[^>]*>\<close> with \<open>re.I\<close>, for \<open>NAME\<close> one of \<open>speak\<close> and \<open>voice\<close>.
\<close>

definition open_tag_at :: "(nat \<Rightarrow> bool) \<Rightarrow> ustr \<Rightarrow> ustr \<Rightarrow> ustr option" where
  "open_tag_at isw name s =
     (case s of
        [] \<Rightarrow> None
      | c # r \<Rightarrow>
          if c \<noteq> 60 then None
          else (let r1 = skip_ws r
                in case match_ci name r1 of
                     None \<Rightarrow> None
                   | Some r2 \<Rightarrow>
                       if \<not> word_boundary isw (last (take (length name) r1)) r2 then None
                       else (case dropWhile (\<lambda>c. c \<noteq> 62) r2 of
                               [] \<Rightarrow> None
                             | g # r3 \<Rightarrow> Some r3)))"

text \<open>\<open></\s*speak\s*>\<close> with \<open>re.I\<close>.\<close>

definition speak_close_at :: "ustr \<Rightarrow> ustr option" where
  "speak_close_at s =
     (case s of
        a # b # r \<Rightarrow>
          if a = 60 \<and> b = 47 then
            (case match_ci (u ''speak'') (skip_ws r) of
               None \<Rightarrow> None
             | Some r2 \<Rightarrow>
                 (case skip_ws r2 of
                    [] \<Rightarrow> None
                  | g # r3 \<Rightarrow> if g = 62 then Some r3 else None))
          else None
      | _ \<Rightarrow> None)"

text \<open>\<open><\s*/\s*voice\s*>\<close> with \<open>re.I\<close>.\<close>

definition voice_close_at :: "ustr \<Rightarrow> ustr option" where
  "voice_close_at s =
     (case s of
        [] \<Rightarrow> None
      | a # r \<Rightarrow>
          if a \<noteq> 60 then None
          else (case skip_ws r of
                  [] \<Rightarrow> None
                | b # r1 \<Rightarrow>
                    if b \<noteq> 47 then None
                    else (case match_ci (u ''voice'') (skip_ws r1) of
                            None \<Rightarrow> None
                          | Some r2 \<Rightarrow>
                              (case skip_ws r2 of
                                 [] \<Rightarrow> None
                               | g # r3 \<Rightarrow> if g = 62 then Some r3 else None))))"

text \<open>
  \<open>re.search\<close>: the leftmost position where the pattern matches, as the pair of
  \<open>m.start()\<close> and \<open>m.end()\<close>. \<open>i\<close> is the position of the text still to scan.
\<close>

fun search_from :: "(ustr \<Rightarrow> ustr option) \<Rightarrow> nat \<Rightarrow> ustr \<Rightarrow> (nat \<times> nat) option" where
  "search_from m i [] = (case m [] of None \<Rightarrow> None | Some r \<Rightarrow> Some (i, i))"
| "search_from m i (c # cs) =
     (case m (c # cs) of
        Some r \<Rightarrow> Some (i, i + (length (c # cs) - length r))
      | None \<Rightarrow> search_from m (Suc i) cs)"

definition re_search :: "(ustr \<Rightarrow> ustr option) \<Rightarrow> ustr \<Rightarrow> (nat \<times> nat) option" where
  "re_search m s = search_from m 0 s"

text \<open>The slice \<open>s[a:b]\<close> for \<open>0 \<le> a\<close> and \<open>0 \<le> b\<close>; it is empty when \<open>b \<le> a\<close>.\<close>

definition slice :: "nat \<Rightarrow> nat \<Rightarrow> ustr \<Rightarrow> ustr" where
  "slice a b s = take (b - a) (drop a s)"

section \<open>Synthesis script: normalising and splitting the document\<close>

text \<open>
  \<^verbatim>\<open>
  def normalize_prolog(ssml_text):
      if ssml_text and ssml_text[0] == "\ufeff":
          ssml_text = ssml_text[1:]
      ssml_text = re.sub(r'^\s*<\?xml[^>]*\?>\s*', '', ssml_text, flags=re.S)
      ssml_text = re.sub(r'^\s*<!--.*?-->\s*', '', ssml_text, flags=re.S)
      return ssml_text
  \<close>
  Both patterns start with \<open>^\<close> and are compiled without \<open>re.M\<close>, so they match at
  the start of the text or nowhere, and \<open>re.sub\<close> removes that one match.
\<close>

definition strip_bom :: "ustr \<Rightarrow> ustr" where
  "strip_bom s = (case s of [] \<Rightarrow> [] | c # cs \<Rightarrow> if c = 65279 then cs else c # cs)"

text \<open>
  \<open>^\s*<\?xml[^>]*\?>\s*\<close> at the start of a text: after \<open><?xml\<close>, \<open>[^>]*\<close> runs
  to the first \<open>>\<close>, and the code point before that \<open>>\<close> must be a \<open>?\<close> of the run.
  The result is the text after the match.
\<close>

definition xml_prolog_at :: "ustr \<Rightarrow> ustr option" where
  "xml_prolog_at s =
     (case match_lit (u ''<?xml'') (skip_ws s) of
        None \<Rightarrow> None
      | Some r1 \<Rightarrow>
          (let a = takeWhile (\<lambda>c. c \<noteq> 62) r1
           in case dropWhile (\<lambda>c. c \<noteq> 62) r1 of
                [] \<Rightarrow> None
              | g # r2 \<Rightarrow> if a \<noteq> [] \<and> last a = 63 then Some (skip_ws r2) else None))"

text \<open>The text after the first occurrence of \<open>p\<close> in a text, if there is one.\<close>

fun after_first :: "ustr \<Rightarrow> ustr \<Rightarrow> ustr option" where
  "after_first p [] = (if p = [] then Some [] else None)"
| "after_first p (c # cs) =
     (if take (length p) (c # cs) = p then Some (drop (length p) (c # cs))
      else after_first p cs)"

text \<open>
  \<open>^\s*<!--.*?-->\s*\<close> with \<open>re.S\<close> at the start of a text: the lazy \<open>.*?\<close> stops at
  the first \<open>-->\<close>.
\<close>

definition top_comment_at :: "ustr \<Rightarrow> ustr option" where
  "top_comment_at s =
     (case match_lit (u ''<!--'') (skip_ws s) of
        None \<Rightarrow> None
      | Some r1 \<Rightarrow>
          (case after_first (u ''-->'') r1 of
             None \<Rightarrow> None
           | Some r2 \<Rightarrow> Some (skip_ws r2)))"

text \<open>
  \<open>re.sub(pattern, '', text)\<close> for a pattern that matches at the start or nowhere: the
  match is removed, a text without a match is returned as it is.
\<close>

definition sub_at_start :: "(ustr \<Rightarrow> ustr option) \<Rightarrow> ustr \<Rightarrow> ustr" where
  "sub_at_start m s = (case m s of None \<Rightarrow> s | Some r \<Rightarrow> r)"

definition normalize_prolog :: "ustr \<Rightarrow> ustr" where
  "normalize_prolog ssml_text =
     sub_at_start top_comment_at (sub_at_start xml_prolog_at (strip_bom ssml_text))"

text \<open>
  \<^verbatim>\<open>
  def extract_speak_body(ssml_text):
      txt = normalize_prolog(ssml_text)
      m_open = re.search(r'<\s*speak\b[^>]*>', txt, flags=re.I|re.S)
      m_close = re.search(r'</\s*speak\s*>', txt, flags=re.I|re.S)
      if not m_open or not m_close:
          raise ValueError("Cannot find <speak> ... </speak> root. ...")
      open_tag = m_open.group(0)
      close_tag = m_close.group(0)
      inner = txt[m_open.end():m_close.start()]
      return open_tag, inner, close_tag
  \<close>
\<close>

datatype split_error = No_Speak_Root

definition extract_speak_body ::
  "(nat \<Rightarrow> bool) \<Rightarrow> ustr \<Rightarrow> split_error + (ustr \<times> ustr \<times> ustr)" where
  "extract_speak_body isw ssml_text =
     (let txt = normalize_prolog ssml_text
      in case re_search (open_tag_at isw (u ''speak'')) txt of
           None \<Rightarrow> Inl No_Speak_Root
         | Some (o_start, o_end) \<Rightarrow>
             (case re_search speak_close_at txt of
                None \<Rightarrow> Inl No_Speak_Root
              | Some (c_start, c_end) \<Rightarrow>
                  Inr (slice o_start o_end txt, slice o_end c_start txt,
                       slice c_start c_end txt)))"

text \<open>
  \<open>(?s)(<\s*voice\b[^>]*>.*?<\s*/\s*voice\s*>)\<close> with \<open>re.I\<close>: the opening tag, then
  the lazy \<open>.*?\<close> up to the first closing tag after it.
\<close>

definition voice_block_at :: "(nat \<Rightarrow> bool) \<Rightarrow> ustr \<Rightarrow> ustr option" where
  "voice_block_at isw s =
     (case open_tag_at isw (u ''voice'') s of
        None \<Rightarrow> None
      | Some r1 \<Rightarrow>
          (case re_search voice_close_at r1 of
             None \<Rightarrow> None
           | Some (c_start, c_end) \<Rightarrow> Some (drop c_end r1)))"

text \<open>
  \<open>re.findall\<close> of that pattern: the matches from left to right, each search starting
  where the previous match ended. (The pattern has one group, which is the whole match.)
  The recursion terminates because a match is never empty; this is proved below, after
  the facts about the matchers it needs.
\<close>

function findall_voice :: "(nat \<Rightarrow> bool) \<Rightarrow> ustr \<Rightarrow> ustr list" where
  "findall_voice isw s =
     (case re_search (voice_block_at isw) s of
        None \<Rightarrow> []
      | Some (m_start, m_end) \<Rightarrow> slice m_start m_end s # findall_voice isw (drop m_end s))"
  by pat_completeness auto

text \<open>
  \<^verbatim>\<open>
  def split_ssml_by_voice(ssml_text, max_voices=48):
      open_tag, body, close_tag = extract_speak_body(ssml_text)
      voice_blocks = re.findall(r'(?s)(<\s*voice\b[^>]*>.*?<\s*/\s*voice\s*>)', body, flags=re.I)
      if not voice_blocks:
          voice_blocks = [body]
      parts = []
      current = []
      for vb in voice_blocks:
          current.append(vb)
          if len(current) >= max_voices:
              parts.append(open_tag + "\n" + "\n".join(current) + "\n" + close_tag)
              current = []
      if current:
          parts.append(open_tag + "\n" + "\n".join(current) + "\n" + close_tag)
      return parts
  \<close>
\<close>

definition voice_blocks_of :: "(nat \<Rightarrow> bool) \<Rightarrow> ustr \<Rightarrow> ustr list" where
  "voice_blocks_of isw body =
     (let voice_blocks = findall_voice isw body
      in if voice_blocks = [] then [body] else voice_blocks)"

text \<open>\<open>"\n".join(current)\<close>\<close>

fun join_nl :: "ustr list \<Rightarrow> ustr" where
  "join_nl [] = []"
| "join_nl [x] = x"
| "join_nl (x # y # ys) = x @ [10] @ join_nl (y # ys)"

text \<open>\<open>open_tag + "\n" + "\n".join(current) + "\n" + close_tag\<close>\<close>

definition part_text :: "ustr \<Rightarrow> ustr \<Rightarrow> ustr list \<Rightarrow> ustr" where
  "part_text open_tag close_tag current = open_tag @ [10] @ join_nl current @ [10] @ close_tag"

text \<open>The loop over \<open>voice_blocks\<close>, with its variables \<open>current\<close> and \<open>parts\<close>.\<close>

fun split_loop :: "ustr \<Rightarrow> ustr \<Rightarrow> int \<Rightarrow> ustr list \<Rightarrow> ustr list \<Rightarrow> ustr list \<Rightarrow> ustr list" where
  "split_loop open_tag close_tag max_voices [] current parts =
     (if current \<noteq> [] then parts @ [part_text open_tag close_tag current] else parts)"
| "split_loop open_tag close_tag max_voices (vb # vbs) current parts =
     (let current' = current @ [vb]
      in if max_voices \<le> int (length current')
         then split_loop open_tag close_tag max_voices vbs []
                (parts @ [part_text open_tag close_tag current'])
         else split_loop open_tag close_tag max_voices vbs current' parts)"

definition split_ssml_by_voice :: "(nat \<Rightarrow> bool) \<Rightarrow> ustr \<Rightarrow> int \<Rightarrow> split_error + ustr list" where
  "split_ssml_by_voice isw ssml_text max_voices =
     (case extract_speak_body isw ssml_text of
        Inl e \<Rightarrow> Inl e
      | Inr (open_tag, body, close_tag) \<Rightarrow>
          Inr (split_loop open_tag close_tag max_voices (voice_blocks_of isw body) [] []))"

subsection \<open>What the splitter is compared with\<close>

text \<open>
  The specification's grouping of a sequence into consecutive chunks of \<open>n\<close> elements,
  the last one holding what remains.
\<close>

fun chunks :: "nat \<Rightarrow> 'a list \<Rightarrow> 'a list list" where
  "chunks n xs = (if n = 0 \<or> xs = [] then [] else take n xs # chunks n (drop n xs))"

declare chunks.simps [simp del]

text \<open>
  A document with a prolog in front: an optional byte-order mark, an optional XML
  declaration \<open><?xml a ?>\<close> and an optional comment \<open><!-- c -->\<close>, in this order, the
  declaration and the comment each between runs of white space.
\<close>

definition xml_decl :: "ustr \<times> ustr \<times> ustr \<Rightarrow> ustr" where
  "xml_decl d = (case d of (w0, a, w1) \<Rightarrow> w0 @ u ''<?xml'' @ a @ u ''?>'' @ w1)"

definition top_comment :: "ustr \<times> ustr \<times> ustr \<Rightarrow> ustr" where
  "top_comment d = (case d of (w0, c, w1) \<Rightarrow> w0 @ u ''<!--'' @ c @ u ''-->'' @ w1)"

definition with_prolog ::
  "bool \<Rightarrow> (ustr \<times> ustr \<times> ustr) option \<Rightarrow> (ustr \<times> ustr \<times> ustr) option \<Rightarrow> ustr \<Rightarrow> ustr" where
  "with_prolog bom decl com doc =
     (if bom then [65279] else [])
       @ (case decl of None \<Rightarrow> [] | Some d \<Rightarrow> xml_decl d)
       @ (case com of None \<Rightarrow> [] | Some c \<Rightarrow> top_comment c)
       @ doc"

text \<open>
  The parts of such a prolog are well formed: white space where white space is meant,
  no \<open>>\<close> inside the declaration, no \<open>-->\<close> inside the comment.
\<close>

definition decl_ok :: "(ustr \<times> ustr \<times> ustr) option \<Rightarrow> bool" where
  "decl_ok decl =
     (case decl of
        None \<Rightarrow> True
      | Some (w0, a, w1) \<Rightarrow> list_all is_space w0 \<and> list_all is_space w1 \<and> 62 \<notin> set a)"

definition comment_ok :: "(ustr \<times> ustr \<times> ustr) option \<Rightarrow> bool" where
  "comment_ok com =
     (case com of
        None \<Rightarrow> True
      | Some (w0, c, w1) \<Rightarrow>
          list_all is_space w0 \<and> list_all is_space w1 \<and> \<not> is_substr (u ''-->'') c)"

text \<open>
  The part of \<open>extract_speak_body\<close> after the normalisation, as a function of the
  normalised text.
\<close>

definition speak_root :: "(nat \<Rightarrow> bool) \<Rightarrow> ustr \<Rightarrow> split_error + (ustr \<times> ustr \<times> ustr)" where
  "speak_root isw txt =
     (case re_search (open_tag_at isw (u ''speak'')) txt of
        None \<Rightarrow> Inl No_Speak_Root
      | Some (o_start, o_end) \<Rightarrow>
          (case re_search speak_close_at txt of
             None \<Rightarrow> Inl No_Speak_Root
           | Some (c_start, c_end) \<Rightarrow>
               Inr (slice o_start o_end txt, slice o_end c_start txt,
                    slice c_start c_end txt)))"

text \<open>A pattern matches at no position of a text (the end of the text included).\<close>

definition matches_nowhere :: "(ustr \<Rightarrow> ustr option) \<Rightarrow> ustr \<Rightarrow> bool" where
  "matches_nowhere m s = list_all (\<lambda>j. m (drop j s) = None) [0..<Suc (length s)]"

text \<open>
  A text laid out as gap, block, gap, \<open>\<dots>\<close>, block, gap. Each block is a match of the
  voice pattern (an opening voice tag, then everything up to and including the first
  closing voice tag after it) that starts where the gap before it ends; at no position
  of a gap does a match of the pattern start; the last gap is the rest of the text.
\<close>

fun voice_layout :: "(nat \<Rightarrow> bool) \<Rightarrow> ustr \<Rightarrow> ustr list \<Rightarrow> ustr list \<Rightarrow> bool" where
  "voice_layout isw s [g] [] = (s = g \<and> matches_nowhere (voice_block_at isw) s)"
| "voice_layout isw s (g # gs) (b # bs) =
     (take (length g) s = g
      \<and> list_all (\<lambda>j. voice_block_at isw (drop j s) = None) [0..<length g]
      \<and> take (length b) (drop (length g) s) = b
      \<and> voice_block_at isw (drop (length g) s) = Some (drop (length g + length b) s)
      \<and> voice_layout isw (drop (length g + length b) s) gs bs)"
| "voice_layout isw s gs bs = False"

text \<open>The ASCII part of the table of word characters, for concrete evaluations.\<close>

definition ascii_word :: "nat \<Rightarrow> bool" where
  "ascii_word c =
     ((48 \<le> c \<and> c \<le> 57) \<or> (65 \<le> c \<and> c \<le> 90) \<or> (97 \<le> c \<and> c \<le> 122) \<or> c = 95)"

section \<open>Subtitle timestamps and files: proofs\<close>

lemma str_nat_lt10: "n < 10 \<Longrightarrow> str_nat n = [digit n]"
  by (simp add: str_nat.simps)

lemma str_nat_lt100: "10 \<le> n \<Longrightarrow> n < 100 \<Longrightarrow> str_nat n = [digit (n div 10), digit (n mod 10)]"
  by (subst str_nat.simps) (simp add: str_nat_lt10)

lemma str_nat_lt1000:
  "100 \<le> n \<Longrightarrow> n < 1000 \<Longrightarrow> str_nat n = [digit (n div 100), digit (n div 10 mod 10), digit (n mod 10)]"
  by (subst str_nat.simps) (simp add: str_nat_lt100 div_mult2_eq[symmetric])

lemma fmt_d_2: "n < 100 \<Longrightarrow> fmt_d 2 (int n) = [digit (n div 10), digit (n mod 10)]"
  by (cases "n < 10") (simp_all add: fmt_d_def zfill_def str_nat_lt10 str_nat_lt100 digit_def)

lemma fmt_d_3:
  "n < 1000 \<Longrightarrow> fmt_d 3 (int n) = [digit (n div 100), digit (n div 10 mod 10), digit (n mod 10)]"
proof -
  assume n: "n < 1000"
  consider "n < 10" | "10 \<le> n" "n < 100" | "100 \<le> n" by linarith
  then show ?thesis
  proof cases
    case 1 then show ?thesis
      by (simp add: fmt_d_def zfill_def str_nat_lt10 digit_def numeral_2_eq_2)
  next
    case 2 then show ?thesis by (simp add: fmt_d_def zfill_def str_nat_lt100 digit_def)
  next
    case 3 with n show ?thesis by (simp add: fmt_d_def zfill_def str_nat_lt1000)
  qed
qed

lemma py_round_near: "\<bar>of_int (py_round x) - x\<bar> \<le> 1 / 2"
proof -
  have "of_int \<lfloor>x\<rfloor> \<le> x" "x < of_int \<lfloor>x\<rfloor> + 1" by linarith+
  then show ?thesis
    unfolding py_round_def Let_def by (auto simp: abs_le_iff)
qed

lemma py_round_shift_even: "py_round (x + of_int (2 * k)) = py_round x + 2 * k"
proof -
  have "\<lfloor>x + of_int (2 * k)\<rfloor> = \<lfloor>x\<rfloor> + 2 * k" by (metis floor_add_int)
  then show ?thesis
    unfolding py_round_def Let_def by (simp add: algebra_simps)
qed

lemma py_round_bounds: "0 \<le> x \<Longrightarrow> x < of_int n - 1 / 2 \<Longrightarrow> 0 \<le> py_round x \<and> py_round x < n"
proof -
  assume a: "0 \<le> x" "x < of_int n - 1 / 2"
  have n: "\<bar>of_int (py_round x) - x\<bar> \<le> 1 / 2" by (rule py_round_near)
  have "- 1 < (of_int (py_round x) :: rat)" using a n by linarith
  then have 1: "- 1 < py_round x" by (metis of_int_less_iff of_int_minus of_int_1)
  have "(of_int (py_round x) :: rat) < of_int n" using a n by linarith
  then have 2: "py_round x < n" by (simp only: of_int_less_iff)
  from 1 2 show ?thesis by simp
qed

lemma floor_div_rat:
  assumes n: "0 < n"
  shows "\<lfloor>x / rat_of_int n\<rfloor> = \<lfloor>x\<rfloor> div n"
proof -
  define q where "q = \<lfloor>x\<rfloor> div n"
  define r where "r = \<lfloor>x\<rfloor> mod n"
  have fl: "\<lfloor>x\<rfloor> = q * n + r" by (simp add: q_def r_def)
  have r: "0 \<le> r" "r + 1 \<le> n" using n by (simp_all add: r_def add1_zle_eq)
  have x: "of_int \<lfloor>x\<rfloor> \<le> x" "x < of_int \<lfloor>x\<rfloor> + 1" by linarith+
  have "q * n \<le> \<lfloor>x\<rfloor>" using fl r by linarith
  then have "rat_of_int (q * n) \<le> of_int \<lfloor>x\<rfloor>" by (simp only: of_int_le_iff)
  also have "\<dots> \<le> x" by (rule of_int_floor_le)
  finally have lo: "of_int q * of_int n \<le> x" by simp
  have "\<lfloor>x\<rfloor> + 1 \<le> (q + 1) * n" using fl r by (simp add: algebra_simps)
  then have "rat_of_int (\<lfloor>x\<rfloor> + 1) \<le> of_int ((q + 1) * n)" by (simp only: of_int_le_iff)
  moreover have "x < rat_of_int (\<lfloor>x\<rfloor> + 1)" using x by simp
  ultimately have "x < rat_of_int ((q + 1) * n)" by (rule less_le_trans [rotated])
  then have hi: "x < (of_int q + 1) * of_int n" by simp
  have np: "0 < rat_of_int n" using n by simp
  have "of_int q \<le> x / of_int n" using lo np by (simp add: pos_le_divide_eq)
  moreover have "x / of_int n < of_int q + 1" using hi np by (simp add: pos_divide_less_eq)
  ultimately have "\<lfloor>x / of_int n\<rfloor> = q" by (rule floor_unique)
  then show ?thesis by (simp add: q_def)
qed

lemma srt_h_nonneg: "0 \<le> t \<Longrightarrow> srt_h t = \<lfloor>t\<rfloor> div 3600"
  using floor_div_rat [of 3600 t] by (simp add: srt_h_def py_floordiv_def py_int_def)

lemma py_mod_nonneg_arg:
  assumes t: "0 \<le> t" and n: "0 < n"
  shows "py_mod t (of_int n) = t - of_int n * of_int \<lfloor>t / of_int n\<rfloor>"
    and "0 \<le> py_mod t (of_int n)"
proof -
  have np: "0 < rat_of_int n" using n by simp
  have q: "0 \<le> t / rat_of_int n" using t np by simp
  have fm: "fmod t (of_int n) = t - of_int n * of_int \<lfloor>t / of_int n\<rfloor>"
    using q by (simp add: fmod_def py_int_def)
  have "of_int \<lfloor>t / of_int n\<rfloor> * rat_of_int n \<le> t"
    by (rule pos_le_divide_eq [THEN iffD1, OF np of_int_floor_le])
  then have nn: "0 \<le> fmod t (of_int n)" by (simp add: fm mult.commute)
  have "\<not> (rat_of_int n < 0)" using n by simp
  with nn have "py_mod t (of_int n) = fmod t (of_int n)"
    by (simp add: py_mod_def Let_def)
  with fm nn show "py_mod t (of_int n) = t - of_int n * of_int \<lfloor>t / of_int n\<rfloor>"
    and "0 \<le> py_mod t (of_int n)" by simp_all
qed

lemma py_mod_floor:
  assumes t: "0 \<le> t" and n: "0 < n"
  shows "\<lfloor>py_mod t (of_int n)\<rfloor> = \<lfloor>t\<rfloor> mod n"
proof -
  have "py_mod t (of_int n) = t + of_int (- (n * (\<lfloor>t\<rfloor> div n)))"
    using floor_div_rat [OF n, of t] py_mod_nonneg_arg(1) [OF t n] by simp
  then have "\<lfloor>py_mod t (of_int n)\<rfloor> = \<lfloor>t\<rfloor> + - (n * (\<lfloor>t\<rfloor> div n))"
    by (metis floor_add_int)
  then show ?thesis by (simp add: minus_mult_div_eq_mod)
qed

lemma srt_m_nonneg: "0 \<le> t \<Longrightarrow> srt_m t = (\<lfloor>t\<rfloor> mod 3600) div 60"
proof -
  assume t: "0 \<le> t"
  have "0 \<le> py_mod t 3600" using py_mod_nonneg_arg(2) [OF t, of 3600] by simp
  then have "0 \<le> py_mod t 3600 / 60" by simp
  then have "0 \<le> \<lfloor>py_mod t 3600 / 60\<rfloor>" by simp
  moreover have "\<lfloor>py_mod t 3600 / 60\<rfloor> = \<lfloor>py_mod t 3600\<rfloor> div 60"
    using floor_div_rat [of 60 "py_mod t 3600"] by simp
  moreover have "\<lfloor>py_mod t 3600\<rfloor> = \<lfloor>t\<rfloor> mod 3600"
    using py_mod_floor [OF t, of 3600] by simp
  ultimately show ?thesis by (simp add: srt_m_def py_floordiv_def py_int_def)
qed

lemma srt_s_nonneg: "0 \<le> t \<Longrightarrow> srt_s t = \<lfloor>t\<rfloor> mod 60"
proof -
  assume t: "0 \<le> t"
  have "0 \<le> py_mod t 60" using py_mod_nonneg_arg(2) [OF t, of 60] by simp
  moreover have "\<lfloor>py_mod t 60\<rfloor> = \<lfloor>t\<rfloor> mod 60"
    using py_mod_floor [OF t, of 60] by simp
  ultimately show ?thesis by (simp add: srt_s_def py_int_def)
qed

lemma hms_sum: "3600 * (T div 3600) + 60 * ((T mod 3600) div 60) + T mod 60 = (T::int)"
proof -
  have "(T mod 3600) mod 60 = T mod 60" by (simp add: mod_mod_cancel)
  then have "60 * ((T mod 3600) div 60) + T mod 60 = T mod 3600"
    by (metis mult_div_mod_eq)
  then show ?thesis by (metis add.assoc mult_div_mod_eq)
qed



subsection \<open>Rounding to a double\<close>

lemma py_round_nonneg: "0 \<le> x \<Longrightarrow> 0 \<le> py_round x"
  by (simp add: py_round_def Let_def)

lemma scale_up_spec:
  assumes "scale_up k x = (k', y)" and "k \<le> 1074"
  shows "k \<le> k' \<and> k' \<le> 1074 \<and> y = x * 2 ^ (k' - k) \<and> (2 ^ 52 \<le> y \<or> k' = 1074)"
  using assms
proof (induction k x rule: scale_up.induct)
  case (1 k x)
  show ?case
  proof (cases "2 ^ 52 \<le> x \<or> 1074 \<le> k")
    case True
    with "1.prems" have "k' = k" "y = x" by (simp_all add: scale_up.simps)
    with True "1.prems" show ?thesis by auto
  next
    case False
    with "1.prems" have r: "scale_up (Suc k) (2 * x) = (k', y)" and k: "Suc k \<le> 1074"
      by (simp_all add: scale_up.simps)
    from "1.IH" [OF False r k]
    have ih: "Suc k \<le> k'" "k' \<le> 1074" "y = 2 * x * 2 ^ (k' - Suc k)"
      "2 ^ 52 \<le> y \<or> k' = 1074" by blast+
    from ih(1) have e: "k' - k = Suc (k' - Suc k)" by simp
    have "x * 2 ^ (k' - k) = 2 * x * 2 ^ (k' - Suc k)"
      unfolding e by (simp only: power_Suc mult_ac)
    with ih(3) have yy: "y = x * 2 ^ (k' - k)" by (simp only:)
    from ih(1) have "k \<le> k'" by simp
    with ih(2) yy ih(4) show ?thesis by blast
  qed
qed

lemma fl_pos_small:
  assumes x0: "0 < x" and x1: "x < 1024"
  shows "0 \<le> fl_pos x \<and> \<bar>fl_pos x - x\<bar> \<le> 1 / 2 ^ 44"
proof -
  obtain k y where s: "scale_up 0 x = (k, y)" by (cases "scale_up 0 x")
  have z: "(0::nat) \<le> 1074" by simp
  from scale_up_spec [OF s z] have y: "y = x * 2 ^ k" and c: "2 ^ 52 \<le> y \<or> k = 1074"
    by (simp, blast)
  have k43: "43 \<le> k"
  proof (rule ccontr)
    assume "\<not> 43 \<le> k"
    then have k: "k \<le> 42" by simp
    then have "(2::rat) ^ k \<le> 2 ^ 42" by (intro power_increasing) simp_all
    then have "x * 2 ^ k \<le> x * 2 ^ 42" using x0 by simp
    also have "\<dots> < 1024 * 2 ^ 42" using x1 by simp
    finally have "y < 2 ^ 52" by (simp add: y)
    with c k show False by simp
  qed
  have p: "(0::rat) < 2 ^ k" by simp
  have small: "x < 2 ^ 53" using x1 by simp
  have f: "fl_pos x = of_int (py_round y) / 2 ^ k" using small s by (simp add: fl_pos_def)
  have y0: "0 \<le> y" using x0 by (simp add: y)
  have nn: "0 \<le> fl_pos x" unfolding f using py_round_nonneg [OF y0] by simp
  have "fl_pos x - x = (of_int (py_round y) - y) / 2 ^ k"
    by (simp add: f y diff_divide_distrib)
  then have "\<bar>fl_pos x - x\<bar> = \<bar>of_int (py_round y) - y\<bar> / 2 ^ k" by (simp add: abs_divide)
  also have "\<dots> \<le> (1 / 2) / 2 ^ k"
    by (rule divide_right_mono [OF py_round_near]) (use p in simp)
  also have "\<dots> \<le> (1 / 2) / 2 ^ 43"
  proof -
    have "(2::rat) ^ 43 \<le> 2 ^ k" using k43 by (intro power_increasing) simp_all
    then show ?thesis by (intro divide_left_mono) simp_all
  qed
  finally have "\<bar>fl_pos x - x\<bar> \<le> 1 / 2 ^ 44" by simp
  with nn show ?thesis by simp
qed

lemma fl_small:
  assumes x0: "0 \<le> x" and x1: "x < 1024"
  shows "0 \<le> fl x" and "\<bar>fl x - x\<bar> \<le> 1 / 2 ^ 44"
proof -
  have "0 \<le> fl x \<and> \<bar>fl x - x\<bar> \<le> 1 / 2 ^ 44"
  proof (cases "x = 0")
    case True
    then show ?thesis by (simp add: fl_def)
  next
    case False
    with x0 have "0 < x" by simp
    from fl_pos_small [OF this x1] False x0 show ?thesis by (simp add: fl_def)
  qed
  then show "0 \<le> fl x" and "\<bar>fl x - x\<bar> \<le> 1 / 2 ^ 44" by simp_all
qed

text \<open>
  C7. For the segments \<open>{0.0, 1.5, "A"}\<close> and \<open>{1.5, 3.25, "B"}\<close> the \<open>.srt\<close> file
  and the \<open>.vtt\<close> file hold exactly the two texts of the specification.
\<close>

theorem subtitle_files_example:
  "srt_file [\<lparr>seg_start = 0, seg_end = 3 / 2, seg_text = u ''A''\<rparr>,
             \<lparr>seg_start = 3 / 2, seg_end = 13 / 4, seg_text = u ''B''\<rparr>]
     = u ''1\<newline>00:00:00,000 --> 00:00:01,500\<newline>A\<newline>\<newline>2\<newline>00:00:01,500 --> 00:00:03,250\<newline>B\<newline>\<newline>''
   \<and> vtt_file [\<lparr>seg_start = 0, seg_end = 3 / 2, seg_text = u ''A''\<rparr>,
               \<lparr>seg_start = 3 / 2, seg_end = 13 / 4, seg_text = u ''B''\<rparr>]
     = u ''WEBVTT\<newline>\<newline>00:00:00.000 --> 00:00:01.500\<newline>A\<newline>\<newline>00:00:01.500 --> 00:00:03.250\<newline>B\<newline>\<newline>''"
proof
  show "srt_file [\<lparr>seg_start = 0, seg_end = 3 / 2, seg_text = u ''A''\<rparr>,
                  \<lparr>seg_start = 3 / 2, seg_end = 13 / 4, seg_text = u ''B''\<rparr>]
     = u ''1\<newline>00:00:00,000 --> 00:00:01,500\<newline>A\<newline>\<newline>2\<newline>00:00:01,500 --> 00:00:03,250\<newline>B\<newline>\<newline>''"
    by code_simp
  show "vtt_file [\<lparr>seg_start = 0, seg_end = 3 / 2, seg_text = u ''A''\<rparr>,
                  \<lparr>seg_start = 3 / 2, seg_end = 13 / 4, seg_text = u ''B''\<rparr>]
     = u ''WEBVTT\<newline>\<newline>00:00:00.000 --> 00:00:01.500\<newline>A\<newline>\<newline>00:00:01.500 --> 00:00:03.250\<newline>B\<newline>\<newline>''"
    by code_simp
qed

text \<open>
  C8, as stated, fails in three ways, each at a double. At \<open>t = 360000\<close> (one hundred
  hours) the hours take three digits. At \<open>t = 2047/2048 = 0.99951171875\<close> the
  fraction rounds to 1000 milliseconds, which is printed with four digits and not
  carried into the seconds: the rendering is \<open>00:00:00,1000\<close>, thirteen characters
  long. At the double nearest to \<open>0.4995\<close>, which is below \<open>0.4995\<close>, the product with
  1000 rounds to the double \<open>499.5\<close> and then to 500, where \<open>t\<close> rounded to the nearest
  millisecond is 499.
\<close>

theorem sec_to_srt_counterexample:
  "is_double 360000 \<and> sec_to_srt 360000 = u ''100:00:00,000''
   \<and> is_double (2047 / 2048) \<and> sec_to_srt (2047 / 2048) = u ''00:00:00,1000''
   \<and> length (sec_to_srt (2047 / 2048)) = 13
   \<and> is_double (8998192055486251 / 18014398509481984)
   \<and> sec_to_srt (8998192055486251 / 18014398509481984) = u ''00:00:00,500''
   \<and> py_round (8998192055486251 / 18014398509481984 * 1000) = 499"
proof -
  have a: "is_double 360000" by code_simp
  have b: "sec_to_srt 360000 = u ''100:00:00,000''" by code_simp
  have c: "is_double (2047 / 2048)" by code_simp
  have d: "sec_to_srt (2047 / 2048) = u ''00:00:00,1000''" by code_simp
  have e: "length (u ''00:00:00,1000'') = 13" by (simp add: u_def)
  have f: "is_double (8998192055486251 / 18014398509481984)" by code_simp
  have g: "sec_to_srt (8998192055486251 / 18014398509481984) = u ''00:00:00,500''" by code_simp
  have h: "py_round (8998192055486251 / 18014398509481984 * 1000) = 499" by code_simp
  from a b c d e f g h show ?thesis by simp
qed

text \<open>
  C8, amended. For every double \<open>t\<close> with \<open>0 \<le> t < 360000\<close> for which the product
  of its fractional part with 1000, as the double the code computes, is below
  \<open>999.5\<close>: the rendering is \<open>HH:MM:SS,mmm\<close> with two digits for the hours, minutes
  below 60 and seconds below 60 in two digits each, and three digits of milliseconds;
  hours, minutes and seconds are those of the whole seconds of \<open>t\<close>; the milliseconds
  are that double product rounded to the nearest integer, ties to even; and the time
  denoted is within \<open>1/2 + 2^-44\<close> milliseconds of \<open>t\<close>.
\<close>

theorem sec_to_srt_form:
  assumes dbl: "is_double t" and t0: "0 \<le> t" and t1: "t < 360000"
    and pr: "fl ((t - of_int \<lfloor>t\<rfloor>) * 1000) < 1999 / 2"
  shows "\<exists>h m s ms. h < 100 \<and> m < 60 \<and> s < 60 \<and> ms < 1000
           \<and> sec_to_srt t = hhmmss_mmm h m s ms
           \<and> int (3600 * h + 60 * m + s) = \<lfloor>t\<rfloor>
           \<and> int ms = py_round (fl ((t - of_int \<lfloor>t\<rfloor>) * 1000))
           \<and> \<bar>of_int (int (3600000 * h + 60000 * m + 1000 * s + ms)) - t * 1000\<bar>
                \<le> 1 / 2 + 1 / 2 ^ 44"
proof -
  define T where "T = \<lfloor>t\<rfloor>"
  define h where "h = nat (T div 3600)"
  define m where "m = nat ((T mod 3600) div 60)"
  define s where "s = nat (T mod 60)"
  define p where "p = fl ((t - of_int T) * 1000)"
  define ms where "ms = nat (py_round p)"
  have T0: "0 \<le> T" using t0 by (simp add: T_def)
  have T1: "T < 360000" using t1 by (simp add: T_def floor_less_iff)
  have hh: "srt_h t = int h"
    using srt_h_nonneg [OF t0] T0 by (simp add: h_def T_def pos_imp_zdiv_nonneg_iff)
  have mm: "srt_m t = int m"
    by (simp add: srt_m_nonneg [OF t0] m_def T_def pos_imp_zdiv_nonneg_iff)
  have ss: "srt_s t = int s" by (simp add: srt_s_nonneg [OF t0] s_def T_def)
  have hb: "h < 100"
    using T0 T1 by (simp add: h_def nat_less_iff pos_imp_zdiv_nonneg_iff div_less_iff_less_mult)
  have mb: "m < 60"
    by (simp add: m_def nat_less_iff pos_imp_zdiv_nonneg_iff div_less_iff_less_mult)
  have sb: "s < 60" by (simp add: s_def nat_less_iff)
  have fr0: "0 \<le> (t - of_int T) * 1000" by (simp add: T_def)
  have "t - of_int T < 1" unfolding T_def by linarith
  then have fr1: "(t - of_int T) * 1000 < 1024" by simp
  have p0: "0 \<le> p" unfolding p_def by (rule fl_small(1) [OF fr0 fr1])
  have perr: "\<bar>p - (t - of_int T) * 1000\<bar> \<le> 1 / 2 ^ 44"
    unfolding p_def by (rule fl_small(2) [OF fr0 fr1])
  have p1: "p < of_int 1000 - 1 / 2" using pr by (simp add: p_def T_def)
  have msdef: "srt_ms t = py_round p"
    using t0 by (simp add: srt_ms_def py_int_def T_def p_def)
  have msb: "0 \<le> py_round p \<and> py_round p < 1000" by (rule py_round_bounds [OF p0 p1])
  then have msi: "py_round p = int ms" and msl: "ms < 1000" unfolding ms_def by linarith+
  have str: "sec_to_srt t = hhmmss_mmm h m s ms"
    unfolding sec_to_srt_def hh mm ss msdef msi
    using hb mb sb msl by (simp add: fmt_d_2 fmt_d_3 hhmmss_mmm_def)
  have "int h = T div 3600" "int m = (T mod 3600) div 60" "int s = T mod 60"
    using T0 by (simp_all add: h_def m_def s_def pos_imp_zdiv_nonneg_iff)
  then have hms: "3600 * int h + 60 * int m + int s = T" using hms_sum [of T] by simp
  then have hms': "int (3600 * h + 60 * m + s) = T" by simp
  have "rat_of_int (int (3600000 * h + 60000 * m + 1000 * s + ms))
      = 1000 * of_int (3600 * int h + 60 * int m + int s) + of_int (int ms)" by simp
  also have "\<dots> = 1000 * of_int T + of_int (py_round p)" by (simp only: hms msi)
  finally have tot: "rat_of_int (int (3600000 * h + 60000 * m + 1000 * s + ms)) - t * 1000
      = (of_int (py_round p) - p) + (p - (t - of_int T) * 1000)" by (simp add: algebra_simps)
  have "\<bar>(of_int (py_round p) - p) + (p - (t - of_int T) * 1000)\<bar>
      \<le> \<bar>of_int (py_round p) - p\<bar> + \<bar>p - (t - of_int T) * 1000\<bar>" by (rule abs_triangle_ineq)
  also have "\<dots> \<le> 1 / 2 + 1 / 2 ^ 44"
    by (rule add_mono [OF py_round_near perr])
  finally have near: "\<bar>of_int (int (3600000 * h + 60000 * m + 1000 * s + ms)) - t * 1000\<bar>
      \<le> 1 / 2 + 1 / 2 ^ 44" unfolding tot .
  have msT: "int ms = py_round (fl ((t - of_int \<lfloor>t\<rfloor>) * 1000))"
    using msi by (simp add: p_def T_def)
  from hb mb sb msl str hms' [unfolded T_def] msT near show ?thesis by blast
qed

theorem sec_to_srt_form_witness:
  "is_double (13 / 4) \<and> (0::rat) \<le> 13 / 4 \<and> (13 / 4 :: rat) < 360000
   \<and> fl ((13 / 4 - of_int \<lfloor>13 / 4 :: rat\<rfloor>) * 1000) < 1999 / 2
   \<and> (\<exists>h m s ms. h < 100 \<and> m < 60 \<and> s < 60 \<and> ms < 1000
           \<and> sec_to_srt (13 / 4) = hhmmss_mmm h m s ms
           \<and> int (3600 * h + 60 * m + s) = \<lfloor>13 / 4 :: rat\<rfloor>
           \<and> int ms = py_round (fl ((13 / 4 - of_int \<lfloor>13 / 4 :: rat\<rfloor>) * 1000))
           \<and> \<bar>of_int (int (3600000 * h + 60000 * m + 1000 * s + ms)) - 13 / 4 * 1000\<bar>
                \<le> (1 / 2 + 1 / 2 ^ 44 :: rat))"
proof -
  have h0: "is_double (13 / 4)" by code_simp
  have h1: "(0::rat) \<le> 13 / 4" by simp
  have h2: "(13 / 4 :: rat) < 360000" by simp
  have h3: "fl ((13 / 4 - of_int \<lfloor>13 / 4 :: rat\<rfloor>) * 1000) < 1999 / 2" by code_simp
  show ?thesis
    by (rule conjI, rule h0, rule conjI, rule h1, rule conjI, rule h2, rule conjI, rule h3,
        rule sec_to_srt_form [OF h0 h1 h2 h3])
qed

section \<open>Credentials of the transcription script: proofs\<close>

text \<open>
  C9. With the key, the region and the endpoint all set, the configuration is built
  from the endpoint, not from the region: the test of the source is on the endpoint
  first, against its own comment.
\<close>

theorem transcribe_one_config_both_set:
  "transcribe_one_config
     [u ''SPEECH_KEY'' \<mapsto> u ''k'', u ''SPEECH_REGION'' \<mapsto> u ''eastus'',
      u ''SPEECH_ENDPOINT'' \<mapsto> u ''https://e'']
     = Inr (Config_Endpoint (u ''k'') (u ''https://e''))"
  by (simp add: transcribe_one_config_def truthy_def u_def)

section \<open>Concatenating audio files: proofs\<close>

lemma read_parts_same:
  assumes "list_all (has_params fs pr) ps" and "params = None \<or> params = Some pr"
  shows "read_parts fs ps params data =
           Inr (if ps = [] then params else Some pr, data @ map (frames_at fs) ps)"
  using assms
proof (induction ps arbitrary: params data)
  case Nil
  then show ?case by simp
next
  case (Cons p ps)
  from Cons.prems(1) obtain w where w: "fs p = Some (Wav w)" "getparams w = pr"
    by (auto simp: has_params_def split: option.splits file_entry.splits)
  from Cons.prems(1) have rest: "list_all (has_params fs pr) ps" by simp
  have step: "read_parts fs (p # ps) params data = read_parts fs ps (Some pr) (data @ [frames w])"
    using Cons.prems(2) w by auto
  have "read_parts fs ps (Some pr) (data @ [frames w]) =
          Inr (if ps = [] then Some pr else Some pr, (data @ [frames w]) @ map (frames_at fs) ps)"
    by (rule Cons.IH [OF rest]) simp
  with step w show ?case by (simp add: frames_at_def)
qed

lemma write_frames_ok:
  assumes fits: "header_fits pr 0"
    and inv: "(hl = None \<and> d = []) \<or> hl = Some (length d)"
    and size: "36 + int (length (d @ concat frs)) < 2 ^ 32"
  shows "write_frames pr hl d frs
           = (False, Wav (read_back pr (length (d @ concat frs)) (d @ concat frs)))"
  using inv size
proof (induction frs arbitrary: hl d)
  case Nil
  then show ?case using fits by auto
next
  case (Cons fr frs)
  let ?dl = "(length fr div framesize pr) * framesize pr"
  let ?d' = "d @ fr"
  have dl: "?dl \<le> length fr" by simp
  have sz: "36 + int (length ?d') < 2 ^ 32" using Cons.prems(2) by simp
  have hf: "header_fits pr ?dl"
  proof -
    have "?dl \<le> length ?d'" using dl by (simp only: length_append trans_le_add2)
    then have "int ?dl \<le> int (length ?d')" by (simp only: of_nat_le_iff)
    then have "36 + int ?dl \<le> 36 + int (length ?d')" by linarith
    with sz have "36 + int ?dl < 2 ^ 32" by linarith
    with fits show ?thesis by (auto simp: header_fits_def)
  qed
  have next_size: "36 + int (length (?d' @ concat frs)) < 2 ^ 32" using Cons.prems(2) by simp
  have ih: "write_frames pr (Some (length ?d')) ?d' frs
      = (False, Wav (read_back pr (length (?d' @ concat frs)) (?d' @ concat frs)))"
    by (rule Cons.IH [OF _ next_size]) simp
  have "write_frames pr hl d (fr # frs) = write_frames pr (Some (length ?d')) ?d' frs"
  proof (cases hl)
    case None
    with Cons.prems(1) have d: "d = []" by simp
    show ?thesis using None d hf sz by (simp add: Let_def)
  next
    case (Some h)
    with Cons.prems(1) have "h = length d" by simp
    with Some sz show ?thesis by (simp add: Let_def)
  qed
  with ih show ?case by simp
qed

lemma read_back_whole:
  assumes "framesize (c, w, r) dvd length d"
  shows "read_back (c, w, r) (length d) d
           = \<lparr>nchannels = c, sampwidth = w, framerate = r, frames = d\<rparr>"
  using assms by (simp add: read_back_def)

lemma concat_whole_frames:
  "list_all (\<lambda>x. n dvd length x) xs \<Longrightarrow> n dvd length (concat xs)"
  by (induction xs) simp_all

text \<open>
  C3, as stated, fails where the writer of the \<open>wave\<close> module refuses what its reader
  accepts. Two readable files with the same parameters and a sample width of 8 bytes
  (64-bit samples): \<open>setsampwidth(8)\<close> raises, and the output file, already created, is
  left empty.
\<close>

theorem concat_wavs_same_params_counterexample:
  "list_all
     (has_params
        [u ''a.wav'' \<mapsto> Wav \<lparr>nchannels = 1, sampwidth = 8, framerate = 24000, frames = [1, 2, 3, 4, 5, 6, 7, 8]\<rparr>,
    u ''b.wav'' \<mapsto> Wav \<lparr>nchannels = 1, sampwidth = 8, framerate = 24000, frames = [8, 7, 6, 5, 4, 3, 2, 1]\<rparr>]
        (1, 8, 24000))
     [u ''a.wav'', u ''b.wav'']
   \<and> concat_wavs
        [u ''a.wav'' \<mapsto> Wav \<lparr>nchannels = 1, sampwidth = 8, framerate = 24000, frames = [1, 2, 3, 4, 5, 6, 7, 8]\<rparr>,
    u ''b.wav'' \<mapsto> Wav \<lparr>nchannels = 1, sampwidth = 8, framerate = 24000, frames = [8, 7, 6, 5, 4, 3, 2, 1]\<rparr>]
        [u ''a.wav'', u ''b.wav''] (u ''out.wav'')
      = (Some Write_Failed,
         [u ''a.wav'' \<mapsto> Wav \<lparr>nchannels = 1, sampwidth = 8, framerate = 24000, frames = [1, 2, 3, 4, 5, 6, 7, 8]\<rparr>,
    u ''b.wav'' \<mapsto> Wav \<lparr>nchannels = 1, sampwidth = 8, framerate = 24000, frames = [8, 7, 6, 5, 4, 3, 2, 1]\<rparr>,
          u ''out.wav'' \<mapsto> Unreadable])"
  by (simp add: concat_wavs_def has_params_def getparams_def wave_write_def u_def)

text \<open>
  C3, amended. For a non-empty sequence of paths that all hold readable audio files with
  the same parameters, when the writer accepts these parameters (at least one channel,
  a sample width of 1 to 4 bytes, a positive frame rate, and header fields that fit
  their 16 and 32 bits), every file's frame data is a whole number of frames and the
  total frame data plus the 36 bytes of the header stays below \<open>2^32\<close>:
  \<open>concat_wavs\<close> raises nothing and leaves the store with the output path holding a
  file with these parameters whose frame bytes are the input files' frame bytes,
  concatenated in the order of the sequence.
\<close>

theorem concat_wavs_same_params:
  assumes ne: "wav_paths \<noteq> []"
    and same: "list_all (has_params fs (c, sw, r)) wav_paths"
    and acc: "writer_accepts (c, sw, r)"
    and whole: "list_all (\<lambda>p. framesize (c, sw, r) dvd length (frames_at fs p)) wav_paths"
    and size: "36 + int (length (concat (map (frames_at fs) wav_paths))) < 2 ^ 32"
  shows "concat_wavs fs wav_paths out_wav =
           (None, fs(out_wav \<mapsto> Wav \<lparr>nchannels = c, sampwidth = sw, framerate = r,
                                      frames = concat (map (frames_at fs) wav_paths)\<rparr>))"
proof -
  let ?data = "map (frames_at fs) wav_paths"
  have rd: "read_parts fs wav_paths None [] = Inr (Some (c, sw, r), ?data)"
    using read_parts_same [OF same, of None "[]"] ne by simp
  have fits: "header_fits (c, sw, r) 0"
    using acc by (auto simp: writer_accepts_def header_fits_def)
  have "write_frames (c, sw, r) None [] ?data
      = (False, Wav (read_back (c, sw, r) (length ([] @ concat ?data)) ([] @ concat ?data)))"
    by (rule write_frames_ok [OF fits]) (use size in simp_all)
  moreover have "framesize (c, sw, r) dvd length (concat ?data)"
    by (rule concat_whole_frames) (use whole in \<open>simp add: list_all_iff\<close>)
  ultimately have wf: "write_frames (c, sw, r) None [] ?data
      = (False, Wav \<lparr>nchannels = c, sampwidth = sw, framerate = r, frames = concat ?data\<rparr>)"
    by (simp add: read_back_whole)
  have ww: "wave_write (c, sw, r) ?data
      = (False, Wav \<lparr>nchannels = c, sampwidth = sw, framerate = r, frames = concat ?data\<rparr>)"
    using acc wf by (simp add: wave_write_def writer_accepts_def)
  show ?thesis using ne rd ww by (simp add: concat_wavs_def)
qed

theorem concat_wavs_same_params_witness:
  "[u ''a.wav'', u ''b.wav''] \<noteq> []
   \<and> list_all
        (has_params
           [u ''a.wav'' \<mapsto> Wav \<lparr>nchannels = 1, sampwidth = 2, framerate = 24000, frames = [1, 2]\<rparr>,
    u ''b.wav'' \<mapsto> Wav \<lparr>nchannels = 1, sampwidth = 2, framerate = 24000, frames = [3, 4]\<rparr>]
           (1, 2, 24000))
        [u ''a.wav'', u ''b.wav'']
   \<and> writer_accepts (1, 2, 24000)
   \<and> concat_wavs
        [u ''a.wav'' \<mapsto> Wav \<lparr>nchannels = 1, sampwidth = 2, framerate = 24000, frames = [1, 2]\<rparr>,
    u ''b.wav'' \<mapsto> Wav \<lparr>nchannels = 1, sampwidth = 2, framerate = 24000, frames = [3, 4]\<rparr>]
        [u ''a.wav'', u ''b.wav''] (u ''out.wav'')
      = (None,
         [u ''a.wav'' \<mapsto> Wav \<lparr>nchannels = 1, sampwidth = 2, framerate = 24000, frames = [1, 2]\<rparr>,
    u ''b.wav'' \<mapsto> Wav \<lparr>nchannels = 1, sampwidth = 2, framerate = 24000, frames = [3, 4]\<rparr>,
          u ''out.wav'' \<mapsto>
            Wav \<lparr>nchannels = 1, sampwidth = 2, framerate = 24000, frames = [1, 2, 3, 4]\<rparr>])"
proof -
  let ?fs = "[u ''a.wav'' \<mapsto> Wav \<lparr>nchannels = 1, sampwidth = 2, framerate = 24000, frames = [1, 2]\<rparr>,
    u ''b.wav'' \<mapsto> Wav \<lparr>nchannels = 1, sampwidth = 2, framerate = 24000, frames = [3, 4]\<rparr>]"
  have ne: "[u ''a.wav'', u ''b.wav''] \<noteq> []" by simp
  have hp: "list_all (has_params ?fs (1, 2, 24000)) [u ''a.wav'', u ''b.wav'']"
    by (simp add: has_params_def getparams_def u_def)
  have acc: "writer_accepts (1, 2, 24000)" by (simp add: writer_accepts_def)
  have fr: "map (frames_at ?fs) [u ''a.wav'', u ''b.wav''] = [[1, 2], [3, 4]]"
    by (simp add: frames_at_def u_def)
  have wh: "list_all (\<lambda>p. framesize (1, 2, 24000) dvd length (frames_at ?fs p))
      [u ''a.wav'', u ''b.wav'']"
    by (simp add: frames_at_def framesize_def u_def)
  have sz: "36 + int (length (concat (map (frames_at ?fs) [u ''a.wav'', u ''b.wav'']))) < 2 ^ 32"
    by (simp only: fr) simp
  from concat_wavs_same_params [OF ne hp acc wh sz, of "u ''out.wav''"] ne hp acc fr
  show ?thesis by simp
qed

lemma read_parts_mismatch:
  assumes "list_all (readable fs) ps" and "\<not> list_all (has_params fs pr) ps"
  shows "\<exists>pre p post w. ps = pre @ p # post \<and> list_all (has_params fs pr) pre \<and> fs p = Some (Wav w)
           \<and> getparams w \<noteq> pr \<and> read_parts fs ps (Some pr) data = Inl (Format_Mismatch p (getparams w) pr)"
  using assms
proof (induction ps arbitrary: data)
  case Nil
  then show ?case by simp
next
  case (Cons q qs)
  from Cons.prems(1) obtain w where w: "fs q = Some (Wav w)"
    by (auto simp: readable_def split: option.splits file_entry.splits)
  show ?case
  proof (cases "getparams w = pr")
    case False
    with w have "read_parts fs (q # qs) (Some pr) data = Inl (Format_Mismatch q (getparams w) pr)"
      by simp
    with w False have "q # qs = [] @ q # qs \<and> list_all (has_params fs pr) [] \<and> fs q = Some (Wav w)
           \<and> getparams w \<noteq> pr \<and> read_parts fs (q # qs) (Some pr) data = Inl (Format_Mismatch q (getparams w) pr)"
      by simp
    then show ?thesis by blast
  next
    case True
    with w have hq: "has_params fs pr q" by (simp add: has_params_def)
    with Cons.prems have "list_all (readable fs) qs" "\<not> list_all (has_params fs pr) qs" by simp_all
    from Cons.IH [OF this, of "data @ [frames w]"] obtain pre p post w'
      where r: "qs = pre @ p # post" "list_all (has_params fs pr) pre" "fs p = Some (Wav w')"
        "getparams w' \<noteq> pr"
        "read_parts fs qs (Some pr) (data @ [frames w]) = Inl (Format_Mismatch p (getparams w') pr)"
      by blast
    have "read_parts fs (q # qs) (Some pr) data = read_parts fs qs (Some pr) (data @ [frames w])"
      using w True by simp
    with r hq have "q # qs = (q # pre) @ p # post \<and> list_all (has_params fs pr) (q # pre) \<and> fs p = Some (Wav w')
           \<and> getparams w' \<noteq> pr \<and> read_parts fs (q # qs) (Some pr) data = Inl (Format_Mismatch p (getparams w') pr)"
      by simp
    then show ?thesis by blast
  qed
qed

text \<open>
  C4. For a sequence of paths that all hold readable audio files, in which some file's
  parameters differ from those \<open>pr\<close> of the first file, \<open>concat_wavs\<close> raises the
  mismatch error that names the first such file \<open>p\<close>, its parameters and \<open>pr\<close>, and
  the store is left as it was: no output file is written.
\<close>

theorem concat_wavs_mismatch:
  assumes rd: "list_all (readable fs) wav_paths"
    and first: "wav_paths \<noteq> []" "has_params fs pr (hd wav_paths)"
    and diff: "\<not> list_all (has_params fs pr) wav_paths"
  shows "\<exists>pre p post w. wav_paths = pre @ p # post \<and> list_all (has_params fs pr) pre
           \<and> fs p = Some (Wav w) \<and> getparams w \<noteq> pr
           \<and> concat_wavs fs wav_paths out_wav = (Some (Format_Mismatch p (getparams w) pr), fs)"
proof -
  from first obtain q qs where ps: "wav_paths = q # qs" by (cases wav_paths) auto
  from first ps obtain w0 where w0: "fs q = Some (Wav w0)" "getparams w0 = pr"
    by (auto simp: has_params_def split: option.splits file_entry.splits)
  have start: "read_parts fs wav_paths None [] = read_parts fs qs (Some pr) [frames w0]"
    using ps w0 by simp
  from rd diff first ps have "list_all (readable fs) qs" "\<not> list_all (has_params fs pr) qs"
    by simp_all
  from read_parts_mismatch [OF this, of "[frames w0]"] obtain pre p post w
    where r: "qs = pre @ p # post" "list_all (has_params fs pr) pre" "fs p = Some (Wav w)"
      "getparams w \<noteq> pr"
      "read_parts fs qs (Some pr) [frames w0] = Inl (Format_Mismatch p (getparams w) pr)"
    by blast
  from r start ps first have "wav_paths = (q # pre) @ p # post \<and> list_all (has_params fs pr) (q # pre)
           \<and> fs p = Some (Wav w) \<and> getparams w \<noteq> pr
           \<and> concat_wavs fs wav_paths out_wav = (Some (Format_Mismatch p (getparams w) pr), fs)"
    by (simp add: concat_wavs_def)
  then show ?thesis by blast
qed

theorem concat_wavs_mismatch_witness:
  "list_all
     (readable
        [u ''a.wav'' \<mapsto> Wav \<lparr>nchannels = 1, sampwidth = 2, framerate = 24000, frames = [1, 2]\<rparr>,
         u ''c.wav'' \<mapsto> Wav \<lparr>nchannels = 2, sampwidth = 2, framerate = 24000, frames = [5, 6, 7, 8]\<rparr>])
     [u ''a.wav'', u ''c.wav'']
   \<and> [u ''a.wav'', u ''c.wav''] \<noteq> []
   \<and> has_params
        [u ''a.wav'' \<mapsto> Wav \<lparr>nchannels = 1, sampwidth = 2, framerate = 24000, frames = [1, 2]\<rparr>,
         u ''c.wav'' \<mapsto> Wav \<lparr>nchannels = 2, sampwidth = 2, framerate = 24000, frames = [5, 6, 7, 8]\<rparr>]
        (1, 2, 24000) (hd [u ''a.wav'', u ''c.wav''])
   \<and> \<not> list_all
        (has_params
           [u ''a.wav'' \<mapsto> Wav \<lparr>nchannels = 1, sampwidth = 2, framerate = 24000, frames = [1, 2]\<rparr>,
            u ''c.wav'' \<mapsto> Wav \<lparr>nchannels = 2, sampwidth = 2, framerate = 24000, frames = [5, 6, 7, 8]\<rparr>]
           (1, 2, 24000))
        [u ''a.wav'', u ''c.wav'']
   \<and> (\<exists>pre p post w.
        [u ''a.wav'', u ''c.wav''] = pre @ p # post
        \<and> list_all
             (has_params
                [u ''a.wav'' \<mapsto> Wav \<lparr>nchannels = 1, sampwidth = 2, framerate = 24000, frames = [1, 2]\<rparr>,
                 u ''c.wav'' \<mapsto> Wav \<lparr>nchannels = 2, sampwidth = 2, framerate = 24000, frames = [5, 6, 7, 8]\<rparr>]
                (1, 2, 24000)) pre
        \<and> [u ''a.wav'' \<mapsto> Wav \<lparr>nchannels = 1, sampwidth = 2, framerate = 24000, frames = [1, 2]\<rparr>,
            u ''c.wav'' \<mapsto> Wav \<lparr>nchannels = 2, sampwidth = 2, framerate = 24000, frames = [5, 6, 7, 8]\<rparr>] p
            = Some (Wav w)
        \<and> getparams w \<noteq> (1, 2, 24000)
        \<and> concat_wavs
             [u ''a.wav'' \<mapsto> Wav \<lparr>nchannels = 1, sampwidth = 2, framerate = 24000, frames = [1, 2]\<rparr>,
              u ''c.wav'' \<mapsto> Wav \<lparr>nchannels = 2, sampwidth = 2, framerate = 24000, frames = [5, 6, 7, 8]\<rparr>]
             [u ''a.wav'', u ''c.wav''] (u ''out.wav'')
           = (Some (Format_Mismatch p (getparams w) (1, 2, 24000)),
              [u ''a.wav'' \<mapsto> Wav \<lparr>nchannels = 1, sampwidth = 2, framerate = 24000, frames = [1, 2]\<rparr>,
               u ''c.wav'' \<mapsto> Wav \<lparr>nchannels = 2, sampwidth = 2, framerate = 24000, frames = [5, 6, 7, 8]\<rparr>]))"
proof -
  let ?fs = "[u ''a.wav'' \<mapsto> Wav \<lparr>nchannels = 1, sampwidth = 2, framerate = 24000, frames = [1, 2]\<rparr>,
              u ''c.wav'' \<mapsto> Wav \<lparr>nchannels = 2, sampwidth = 2, framerate = 24000, frames = [5, 6, 7, 8 :: 8 word]\<rparr>]"
  have rd: "list_all (readable ?fs) [u ''a.wav'', u ''c.wav'']"
    by (simp add: readable_def u_def)
  have ne: "[u ''a.wav'', u ''c.wav''] \<noteq> []" by simp
  have hd: "has_params ?fs (1, 2, 24000) (hd [u ''a.wav'', u ''c.wav''])"
    by (simp add: has_params_def getparams_def u_def)
  have df: "\<not> list_all (has_params ?fs (1, 2, 24000)) [u ''a.wav'', u ''c.wav'']"
    by (simp add: has_params_def getparams_def u_def)
  from concat_wavs_mismatch [OF rd ne hd df, of "u ''out.wav''"] rd ne hd df
  show ?thesis by blast
qed

section \<open>The synthesis call with retries: proofs\<close>

lemma synth_first:
  "synth_loop speak 2 0 [] =
     (case speak 1 of
        Raises \<Rightarrow> synth_loop speak 2 1 [3 / 2]
      | Synthesizing_Audio_Completed \<Rightarrow> \<lparr>returned = True, attempts = 1, slept = []\<rparr>
      | Canceled code err \<Rightarrow>
          if transient code err then synth_loop speak 2 1 [3 / 2]
          else \<lparr>returned = False, attempts = 1, slept = []\<rparr>
      | Other_Reason \<Rightarrow> synth_loop speak 2 1 [])"
  by (subst synth_loop.simps) (simp split: speak_outcome.splits)

lemma synth_second:
  "synth_loop speak 2 1 sl =
     (case speak 2 of
        Raises \<Rightarrow> synth_loop speak 2 2 (sl @ [3])
      | Synthesizing_Audio_Completed \<Rightarrow> \<lparr>returned = True, attempts = 2, slept = sl\<rparr>
      | Canceled code err \<Rightarrow>
          if transient code err then synth_loop speak 2 2 (sl @ [3])
          else \<lparr>returned = False, attempts = 2, slept = sl\<rparr>
      | Other_Reason \<Rightarrow> synth_loop speak 2 2 sl)"
  by (subst synth_loop.simps) (simp split: speak_outcome.splits)

lemma synth_third:
  "synth_loop speak 2 2 sl =
     (case speak 3 of
        Raises \<Rightarrow> \<lparr>returned = False, attempts = 3, slept = sl @ [9 / 2]\<rparr>
      | Synthesizing_Audio_Completed \<Rightarrow> \<lparr>returned = True, attempts = 3, slept = sl\<rparr>
      | Canceled code err \<Rightarrow> \<lparr>returned = False, attempts = 3, slept = sl\<rparr>
      | Other_Reason \<Rightarrow> \<lparr>returned = False, attempts = 3, slept = sl\<rparr>)"
  by (subst synth_loop.simps, subst synth_loop.simps, subst synth_loop.simps, subst synth_loop.simps)
     (simp split: speak_outcome.splits)

lemma synth_attempts_le: "attempt \<le> retries + 1 \<Longrightarrow> attempts (synth_loop speak retries attempt sl) \<le> retries + 1"
proof (induction speak retries attempt sl rule: synth_loop.induct)
  case (1 speak retries attempt sl)
  show ?case
  proof (cases "attempt \<le> retries")
    case False
    with 1 show ?thesis by (subst synth_loop.simps) simp
  next
    case True
    show ?thesis
      apply (subst synth_loop.simps)
      using True 1
      apply (auto simp: Let_def split: speak_outcome.splits)
      done
  qed
qed

text \<open>
  C5. With a retry budget of 2 and whatever the service does: a success on attempt 1, 2
  or 3 that follows only retryable failures (an exception or a transient cancellation)
  makes the call return \<open>True\<close>, after sleeping \<open>1.5 * attempt\<close> seconds behind each
  failed attempt; three retryable failures make it return \<open>False\<close> after the third
  attempt; a cancellation on attempt 1 that is not transient makes it return \<open>False\<close>
  at once, with one call made and no sleep; and never more than 3 calls are made.
\<close>

theorem synthesize_retry_budget_2:
  "(speak 1 = Synthesizing_Audio_Completed \<longrightarrow>
      synthesize_to_wav True speak 2 = Inr \<lparr>returned = True, attempts = 1, slept = []\<rparr>)
   \<and> (retryable (speak 1) \<and> speak 2 = Synthesizing_Audio_Completed \<longrightarrow>
      synthesize_to_wav True speak 2 = Inr \<lparr>returned = True, attempts = 2, slept = [3 / 2 * 1]\<rparr>)
   \<and> (retryable (speak 1) \<and> retryable (speak 2) \<and> speak 3 = Synthesizing_Audio_Completed \<longrightarrow>
      synthesize_to_wav True speak 2
        = Inr \<lparr>returned = True, attempts = 3, slept = [3 / 2 * 1, 3 / 2 * 2]\<rparr>)
   \<and> (retryable (speak 1) \<and> retryable (speak 2) \<and> retryable (speak 3) \<longrightarrow>
      (\<exists>run. synthesize_to_wav True speak 2 = Inr run \<and> \<not> returned run \<and> attempts run = 3))
   \<and> (speak 1 = Canceled code err \<and> \<not> transient code err \<longrightarrow>
      synthesize_to_wav True speak 2 = Inr \<lparr>returned = False, attempts = 1, slept = []\<rparr>)
   \<and> (\<exists>run. synthesize_to_wav True speak 2 = Inr run \<and> attempts run \<le> 3)"
proof (intro conjI impI)
  show "\<exists>run. synthesize_to_wav True speak 2 = Inr run \<and> attempts run \<le> 3"
    using synth_attempts_le [of 0 2 speak "[]"] by (simp add: synthesize_to_wav_def)
qed (cases "speak 1"; cases "speak 2"; cases "speak 3";
     simp add: synthesize_to_wav_def synth_first synth_second synth_third)+

theorem synthesize_retry_budget_2_witness:
  "synthesize_to_wav True (\<lambda>n. Synthesizing_Audio_Completed) 2
     = Inr \<lparr>returned = True, attempts = 1, slept = []\<rparr>
   \<and> synthesize_to_wav True (\<lambda>n. if n = 2 then Synthesizing_Audio_Completed else Raises) 2
     = Inr \<lparr>returned = True, attempts = 2, slept = [3 / 2]\<rparr>
   \<and> synthesize_to_wav True
        (\<lambda>n. if n = 3 then Synthesizing_Audio_Completed
              else if n = 2 then Canceled (u ''CancellationErrorCode.ConnectionFailure'') []
              else Raises) 2
     = Inr \<lparr>returned = True, attempts = 3, slept = [3 / 2, 3]\<rparr>
   \<and> (\<exists>run. synthesize_to_wav True (\<lambda>n. Canceled [] (u ''Connection Timeout'')) 2 = Inr run
         \<and> \<not> returned run \<and> attempts run = 3)
   \<and> synthesize_to_wav True (\<lambda>n. Canceled (u ''CancellationErrorCode.AuthenticationFailure'') (u ''bad key'')) 2
     = Inr \<lparr>returned = False, attempts = 1, slept = []\<rparr>"
proof -
  have t1: "transient (u ''CancellationErrorCode.ConnectionFailure'') []"
    by (simp add: transient_def u_def)
  have t2: "transient [] (u ''Connection Timeout'')"
    by (simp add: transient_def u_def str_lower_def ascii_lower_def)
  have t3: "\<not> transient (u ''CancellationErrorCode.AuthenticationFailure'') (u ''bad key'')"
    by (simp add: transient_def u_def str_lower_def ascii_lower_def)
  show ?thesis
    using synthesize_retry_budget_2 [of "\<lambda>n. Synthesizing_Audio_Completed"]
      synthesize_retry_budget_2 [of "\<lambda>n. if n = 2 then Synthesizing_Audio_Completed else Raises"]
      synthesize_retry_budget_2 [of "\<lambda>n. if n = 3 then Synthesizing_Audio_Completed
              else if n = 2 then Canceled (u ''CancellationErrorCode.ConnectionFailure'') []
              else Raises"]
      synthesize_retry_budget_2 [of "\<lambda>n. Canceled [] (u ''Connection Timeout'')"]
      synthesize_retry_budget_2 [of "\<lambda>n. Canceled (u ''CancellationErrorCode.AuthenticationFailure'') (u ''bad key'')"
         "u ''CancellationErrorCode.AuthenticationFailure''" "u ''bad key''"]
      t1 t2 t3
    by simp
qed

section \<open>Splitting the document: proofs\<close>

subsection \<open>The matches are not empty, so \<open>findall_voice\<close> terminates\<close>

lemma match_ci_len: "match_ci p s = Some r \<Longrightarrow> length r + length p = length s"
  by (induction p s rule: match_ci.induct) (auto split: if_splits)

lemma open_tag_at_len:
  assumes "open_tag_at isw name s = Some r"
  shows "length r < length s"
proof -
  from assms obtain c t r2 g where s: "s = c # t"
    and m: "match_ci name (skip_ws t) = Some r2"
    and d: "dropWhile (\<lambda>c. c \<noteq> 62) r2 = g # r"
    by (auto simp: open_tag_at_def Let_def split: list.splits if_splits option.splits)
  have "length (g # r) \<le> length r2" unfolding d [symmetric] by (rule length_dropWhile_le)
  moreover have "length r2 \<le> length (skip_ws t)" using match_ci_len [OF m] by simp
  moreover have "length (skip_ws t) \<le> length t" unfolding skip_ws_def by (rule length_dropWhile_le)
  ultimately show ?thesis using s by simp
qed

lemma search_from_bounds:
  assumes m: "\<And>t r. m t = Some r \<Longrightarrow> length r < length t"
    and s: "search_from m i s = Some (a, b)"
  shows "i \<le> a \<and> a < b \<and> b \<le> i + length s"
  using s
proof (induction s arbitrary: i)
  case Nil
  then show ?case using m [of "[]"] by (auto split: option.splits)
next
  case (Cons c cs)
  show ?case
  proof (cases "m (c # cs)")
    case None
    with Cons.prems have "search_from m (Suc i) cs = Some (a, b)" by simp
    from Cons.IH [OF this] show ?thesis by simp
  next
    case (Some r)
    with Cons.prems have "a = i" "b = i + (length (c # cs) - length r)" by simp_all
    with m [OF Some] show ?thesis by simp
  qed
qed

lemma voice_block_at_len:
  assumes "voice_block_at isw s = Some r"
  shows "length r < length s"
proof -
  from assms obtain r1 cs ce where o: "open_tag_at isw (u ''voice'') s = Some r1"
    and r: "r = drop ce r1"
    by (auto simp: voice_block_at_def split: option.splits)
  from open_tag_at_len [OF o] r show ?thesis by simp
qed

lemma findall_voice_step:
  assumes "re_search (voice_block_at isw) s = Some (a, b)"
  shows "length (drop b s) < length s"
proof -
  from assms have "search_from (voice_block_at isw) 0 s = Some (a, b)" by (simp add: re_search_def)
  from search_from_bounds [OF voice_block_at_len this] have "a < b" "b \<le> length s" by simp_all
  then show ?thesis by simp
qed

termination findall_voice
  by (relation "measure (\<lambda>(isw, s). length s)") (auto dest: findall_voice_step)


declare findall_voice.simps [simp del]

subsection \<open>Chunks\<close>

lemma chunks_Nil: "chunks n [] = []"
  by (simp add: chunks.simps)

lemma chunks_step: "0 < n \<Longrightarrow> xs \<noteq> [] \<Longrightarrow> chunks n xs = take n xs # chunks n (drop n xs)"
  by (subst chunks.simps) simp

lemma concat_chunks: "0 < n \<Longrightarrow> concat (chunks n xs) = xs"
proof (induction n xs rule: chunks.induct)
  case (1 n xs)
  show ?case
  proof (cases "xs = []")
    case True
    then show ?thesis by (simp add: chunks_Nil)
  next
    case False
    with 1 show ?thesis by (simp add: chunks_step)
  qed
qed

lemma chunks_bounded: "0 < n \<Longrightarrow> list_all (\<lambda>g. g \<noteq> [] \<and> length g \<le> n) (chunks n xs)"
proof (induction n xs rule: chunks.induct)
  case (1 n xs)
  show ?case
  proof (cases "xs = []")
    case True
    then show ?thesis by (simp add: chunks_Nil)
  next
    case False
    with 1 show ?thesis by (simp add: chunks_step)
  qed
qed

lemma length_chunks: "0 < n \<Longrightarrow> length (chunks n xs) = (length xs + n - 1) div n"
proof (induction n xs rule: chunks.induct)
  case (1 n xs)
  show ?case
  proof (cases "xs = []")
    case True
    then show ?thesis using 1 by (simp add: chunks_Nil)
  next
    case False
    then have len: "0 < length xs" by simp
    have ih: "length (chunks n (drop n xs)) = (length (drop n xs) + n - 1) div n"
      using 1 False by simp
    show ?thesis
    proof (cases "length xs \<le> n")
      case True
      with len have eq: "length xs + n - 1 = n + (length xs - 1)" and lt: "length xs - 1 < n"
        by linarith+
      have "(length xs + n - 1) div n = 1"
        unfolding eq using "1.prems" lt by simp
      with True False "1.prems" ih show ?thesis by (simp add: chunks_step)
    next
      case False2: False
      then have "length xs + n - 1 = (length xs - n + n - 1) + n" by simp
      then have "(length xs + n - 1) div n = Suc ((length xs - n + n - 1) div n)"
        using "1.prems" by (metis div_add_self2 less_numeral_extra(3) Suc_eq_plus1)
      with False "1.prems" ih show ?thesis by (simp add: chunks_step)
    qed
  qed
qed

lemma nth_chunks:
  "0 < n \<Longrightarrow> i < length (chunks n xs) \<Longrightarrow> chunks n xs ! i = take n (drop (i * n) xs)"
proof (induction n xs arbitrary: i rule: chunks.induct)
  case (1 n xs)
  show ?case
  proof (cases "xs = []")
    case True
    with "1.prems" show ?thesis by (simp add: chunks_Nil)
  next
    case False
    show ?thesis
    proof (cases i)
      case 0
      with False "1.prems" show ?thesis by (simp add: chunks_step)
    next
      case (Suc j)
      with False "1.prems" have "j < length (chunks n (drop n xs))" by (simp add: chunks_step)
      with 1 False have "chunks n (drop n xs) ! j = take n (drop (j * n) (drop n xs))" by simp
      with Suc False "1.prems" show ?thesis by (simp add: chunks_step add.commute)
    qed
  qed
qed

lemma chunks_single: "0 < n \<Longrightarrow> xs \<noteq> [] \<Longrightarrow> length xs \<le> n \<Longrightarrow> chunks n xs = [xs]"
  by (simp add: chunks_step chunks_Nil)

subsection \<open>The loop builds the chunks\<close>

lemma split_loop_chunks:
  assumes k: "k = nat (max 1 M)" and cur: "length current < k"
  shows "split_loop ot ct M vbs current parts
           = parts @ map (part_text ot ct) (chunks k (current @ vbs))"
  using cur
proof (induction vbs arbitrary: current parts)
  case Nil
  from k have kp: "0 < k" by simp
  show ?case
  proof (cases "current = []")
    case True
    then show ?thesis by (simp add: chunks_Nil)
  next
    case False
    with Nil kp show ?thesis by (simp add: chunks_single)
  qed
next
  case (Cons vb vbs)
  from k have kp: "0 < k" by simp
  let ?c = "current @ [vb]"
  show ?case
  proof (cases "M \<le> int (length ?c)")
    case True
    with k Cons.prems have len: "length ?c = k" by (simp add: max_def split: if_splits) 
    have td: "take k (?c @ vbs) = ?c" "drop k (?c @ vbs) = vbs"
    proof -
      have d: "k - length current = Suc 0" using len by simp
      show "take k (?c @ vbs) = ?c" "drop k (?c @ vbs) = vbs" using len d by simp_all
    qed
    have "?c @ vbs \<noteq> []" by simp
    from chunks_step [OF kp this] td have "chunks k (?c @ vbs) = ?c # chunks k vbs"
      by simp
    moreover have "split_loop ot ct M (vb # vbs) current parts
        = split_loop ot ct M vbs [] (parts @ [part_text ot ct ?c])"
      using True by (simp add: Let_def)
    moreover have "split_loop ot ct M vbs [] (parts @ [part_text ot ct ?c])
        = (parts @ [part_text ot ct ?c]) @ map (part_text ot ct) (chunks k ([] @ vbs))"
      by (rule Cons.IH) (use kp in simp)
    ultimately show ?thesis by simp
  next
    case False
    with k have len: "length ?c < k" by (simp add: max_def split: if_splits)
    have "split_loop ot ct M (vb # vbs) current parts = split_loop ot ct M vbs ?c parts"
      using False by (simp add: Let_def)
    moreover have "split_loop ot ct M vbs ?c parts
        = parts @ map (part_text ot ct) (chunks k (?c @ vbs))"
      by (rule Cons.IH [OF len])
    ultimately show ?thesis by simp
  qed
qed

lemma split_ssml_by_voice_chunks:
  assumes "extract_speak_body isw ssml_text = Inr (ot, body, ct)"
  shows "split_ssml_by_voice isw ssml_text M
           = Inr (map (part_text ot ct) (chunks (nat (max 1 M)) (voice_blocks_of isw body)))"
  using assms split_loop_chunks [of "nat (max 1 M)" M "[]" ot ct "voice_blocks_of isw body" "[]"]
  by (simp add: split_ssml_by_voice_def)

lemma ceiling_div_nat:
  assumes k: "0 < k" and n: "0 < n"
  shows "\<lceil>rat_of_nat n / rat_of_nat k\<rceil> = int ((n + k - 1) div k)"
proof -
  define q where "q = (n + k - 1) div k"
  define r where "r = (n + k - 1) mod k"
  have split: "n + k - 1 = q * k + r" by (simp add: q_def r_def)
  have rk: "r < k" using k by (simp add: r_def)
  have up: "n \<le> q * k" using split rk n by linarith
  have lo: "q * k < n + k" using split n k by linarith
  have kp: "0 < rat_of_nat k" using k by simp
  have "rat_of_nat n \<le> rat_of_nat (q * k)" using up by (simp only: of_nat_le_iff)
  then have a: "rat_of_nat n / rat_of_nat k \<le> of_int (int q)"
    using kp by (simp add: pos_divide_le_eq)
  have "rat_of_nat (q * k) < rat_of_nat (n + k)" using lo by (simp only: of_nat_less_iff)
  then have "(rat_of_nat q - 1) * rat_of_nat k < rat_of_nat n" by (simp add: algebra_simps)
  then have b: "of_int (int q) - 1 < rat_of_nat n / rat_of_nat k"
    using kp by (simp add: pos_less_divide_eq)
  from b a have "\<lceil>rat_of_nat n / rat_of_nat k\<rceil> = int q" by (rule ceiling_unique)
  then show ?thesis by (simp add: q_def)
qed

subsection \<open>The claims about the splitter\<close>

text \<open>
  C1. For a document whose root is found, with body \<open>body\<close>, and a positive maximum
  \<open>M\<close>: the splitter returns a list of parts; when \<open>findall\<close> finds \<open>N > 0\<close> voice
  blocks in the body their number is \<open>ceil(N / M)\<close>; when it finds none there is
  exactly one part, the raw body between the root tags.
\<close>

theorem split_count:
  assumes ex: "extract_speak_body isw ssml_text = Inr (open_tag, body, close_tag)"
    and M: "0 < M"
  shows "\<exists>parts. split_ssml_by_voice isw ssml_text M = Inr parts
           \<and> (if findall_voice isw body = []
               then parts = [open_tag @ [10] @ body @ [10] @ close_tag]
               else int (length parts)
                      = \<lceil>rat_of_nat (length (findall_voice isw body)) / rat_of_int M\<rceil>)"
proof -
  define k where "k = nat M"
  from M have kp: "0 < k" and kM: "nat (max 1 M) = k" and Mk: "M = int k"
    by (simp_all add: k_def max_def)
  let ?parts = "map (part_text open_tag close_tag) (chunks k (voice_blocks_of isw body))"
  have sp: "split_ssml_by_voice isw ssml_text M = Inr ?parts"
    using split_ssml_by_voice_chunks [OF ex, of M] kM by simp
  show ?thesis
  proof (cases "findall_voice isw body = []")
    case True
    then have "voice_blocks_of isw body = [body]" by (simp add: voice_blocks_of_def)
    then have "?parts = [open_tag @ [10] @ body @ [10] @ close_tag]"
      using kp by (simp add: chunks_single part_text_def)
    with sp True show ?thesis by simp
  next
    case False
    then have vb: "voice_blocks_of isw body = findall_voice isw body"
      by (simp add: voice_blocks_of_def)
    from False have np: "0 < length (findall_voice isw body)" by simp
    have "int (length ?parts) = int ((length (findall_voice isw body) + k - 1) div k)"
      using kp by (simp add: vb length_chunks)
    also have "\<dots> = \<lceil>rat_of_nat (length (findall_voice isw body)) / rat_of_nat k\<rceil>"
      by (rule ceiling_div_nat [OF kp np, symmetric])
    finally have "int (length ?parts)
        = \<lceil>rat_of_nat (length (findall_voice isw body)) / rat_of_int M\<rceil>"
      by (simp add: Mk)
    with sp False show ?thesis by simp
  qed
qed

text \<open>
  C2. For a document whose root is found and a positive maximum \<open>M\<close>: the parts are
  the wrapped chunks of the body's sub-elements, every chunk holds at least one and at
  most \<open>M\<close> of them, and the chunks concatenated in order are the sequence of
  sub-elements itself.
\<close>

theorem split_chunks_bounded_concat:
  assumes ex: "extract_speak_body isw ssml_text = Inr (open_tag, body, close_tag)"
    and M: "0 < M"
  shows "split_ssml_by_voice isw ssml_text M
           = Inr (map (part_text open_tag close_tag) (chunks (nat M) (voice_blocks_of isw body)))
         \<and> list_all (\<lambda>g. g \<noteq> [] \<and> int (length g) \<le> M) (chunks (nat M) (voice_blocks_of isw body))
         \<and> concat (chunks (nat M) (voice_blocks_of isw body)) = voice_blocks_of isw body"
proof -
  from M have kp: "0 < nat M" and kM: "nat (max 1 M) = nat M" by (simp_all add: max_def)
  have sp: "split_ssml_by_voice isw ssml_text M
      = Inr (map (part_text open_tag close_tag) (chunks (nat M) (voice_blocks_of isw body)))"
    using split_ssml_by_voice_chunks [OF ex, of M] kM by simp
  have "list_all (\<lambda>g. g \<noteq> [] \<and> length g \<le> nat M) (chunks (nat M) (voice_blocks_of isw body))"
    by (rule chunks_bounded [OF kp])
  then have bd: "list_all (\<lambda>g. g \<noteq> [] \<and> int (length g) \<le> M) (chunks (nat M) (voice_blocks_of isw body))"
    by (rule list.pred_mono_strong) (use M in auto)
  from sp bd concat_chunks [OF kp] show ?thesis by simp
qed

text \<open>
  A document with text before, between and after its three voice blocks, split with a
  maximum of 2.
\<close>

lemmas regex_eval =
  u_def normalize_prolog_def strip_bom_def sub_at_start_def xml_prolog_at_def top_comment_at_def
  match_lit_def skip_ws_def is_space_def extract_speak_body_def re_search_def open_tag_at_def
  speak_close_at_def voice_close_at_def voice_block_at_def ci_eq_def word_boundary_def
  ascii_word_def slice_def Let_def

lemma example_extract:
  "extract_speak_body ascii_word (u ''<speak>x<voice>a</voice>y<voice>b</voice>z<voice>c</voice></speak>'')
     = Inr (u ''<speak>'', u ''x<voice>a</voice>y<voice>b</voice>z<voice>c</voice>'', u ''</speak>'')"
  by (simp add: regex_eval)

lemma example_findall:
  "findall_voice ascii_word (u ''x<voice>a</voice>y<voice>b</voice>z<voice>c</voice>'')
     = [u ''<voice>a</voice>'', u ''<voice>b</voice>'', u ''<voice>c</voice>'']"
  by (simp add: regex_eval findall_voice.simps)

theorem split_count_witness:
  "extract_speak_body ascii_word (u ''<speak>x<voice>a</voice>y<voice>b</voice>z<voice>c</voice></speak>'')
     = Inr (u ''<speak>'', u ''x<voice>a</voice>y<voice>b</voice>z<voice>c</voice>'', u ''</speak>'')
   \<and> (0 :: int) < 2
   \<and> (\<exists>parts. split_ssml_by_voice ascii_word (u ''<speak>x<voice>a</voice>y<voice>b</voice>z<voice>c</voice></speak>'') 2 = Inr parts
         \<and> (if findall_voice ascii_word (u ''x<voice>a</voice>y<voice>b</voice>z<voice>c</voice>'') = []
             then parts = [u ''<speak>'' @ [10] @ u ''x<voice>a</voice>y<voice>b</voice>z<voice>c</voice>'' @ [10] @ u ''</speak>'']
             else int (length parts)
                    = \<lceil>rat_of_nat (length (findall_voice ascii_word (u ''x<voice>a</voice>y<voice>b</voice>z<voice>c</voice>''))) / rat_of_int 2\<rceil>))"
proof -
  have M: "(0 :: int) < 2" by simp
  show ?thesis
    by (rule conjI, rule example_extract, rule conjI, rule M, rule split_count [OF example_extract M])
qed

theorem split_chunks_bounded_concat_witness:
  "extract_speak_body ascii_word (u ''<speak>x<voice>a</voice>y<voice>b</voice>z<voice>c</voice></speak>'')
     = Inr (u ''<speak>'', u ''x<voice>a</voice>y<voice>b</voice>z<voice>c</voice>'', u ''</speak>'')
   \<and> (0 :: int) < 2
   \<and> split_ssml_by_voice ascii_word (u ''<speak>x<voice>a</voice>y<voice>b</voice>z<voice>c</voice></speak>'') 2
       = Inr (map (part_text (u ''<speak>'') (u ''</speak>''))
                (chunks (nat 2) (voice_blocks_of ascii_word (u ''x<voice>a</voice>y<voice>b</voice>z<voice>c</voice>''))))
   \<and> list_all (\<lambda>g. g \<noteq> [] \<and> int (length g) \<le> 2)
        (chunks (nat 2) (voice_blocks_of ascii_word (u ''x<voice>a</voice>y<voice>b</voice>z<voice>c</voice>'')))
   \<and> concat (chunks (nat 2) (voice_blocks_of ascii_word (u ''x<voice>a</voice>y<voice>b</voice>z<voice>c</voice>'')))
       = voice_blocks_of ascii_word (u ''x<voice>a</voice>y<voice>b</voice>z<voice>c</voice>'')"
proof -
  have M: "(0 :: int) < 2" by simp
  show ?thesis
    by (rule conjI, rule example_extract, rule conjI, rule M,
        rule split_chunks_bounded_concat [OF example_extract M])
qed

text \<open>The texts \<open>x\<close>, \<open>y\<close> and \<open>z\<close> outside the blocks are in no part.\<close>

lemma example_split:
  "split_ssml_by_voice ascii_word (u ''<speak>x<voice>a</voice>y<voice>b</voice>z<voice>c</voice></speak>'') 2
     = Inr [u ''<speak>\<newline><voice>a</voice>\<newline><voice>b</voice>\<newline></speak>'',
            u ''<speak>\<newline><voice>c</voice>\<newline></speak>'']"
  by (simp add: split_ssml_by_voice_def example_extract voice_blocks_of_def example_findall part_text_def)
     (simp add: u_def)

section \<open>Normalising the prolog: proofs\<close>

lemma extract_speak_body_root:
  "extract_speak_body isw ssml_text = speak_root isw (normalize_prolog ssml_text)"
  by (simp add: extract_speak_body_def speak_root_def Let_def)

lemma skip_ws_append: "list_all is_space w \<Longrightarrow> skip_ws (w @ s) = skip_ws s"
  by (induction w) (simp_all add: skip_ws_def)

lemma skip_ws_Cons: "\<not> is_space c \<Longrightarrow> skip_ws (c # s) = c # s"
  by (simp add: skip_ws_def)

lemma skip_ws_idem: "skip_ws (skip_ws s) = skip_ws s"
  by (simp add: skip_ws_def dropWhile_idem)

lemma skip_ws_split: "\<exists>w. list_all is_space w \<and> s = w @ skip_ws s"
proof -
  have "list_all is_space (takeWhile is_space s)"
    by (simp add: list_all_iff) (meson set_takeWhileD)
  moreover have "s = takeWhile is_space s @ skip_ws s" by (simp add: skip_ws_def)
  ultimately show ?thesis by blast
qed

lemma length_skip_ws: "length (skip_ws s) \<le> length s"
  unfolding skip_ws_def by (rule length_dropWhile_le)

lemma not_space_lt: "\<not> is_space 60"
  by (simp add: is_space_def)

lemma match_lit_append: "match_lit p (p @ s) = Some s"
  by (simp add: match_lit_def)

lemma xml_prolog_at_decl:
  assumes w: "list_all is_space w0" and a: "62 \<notin> set a"
  shows "xml_prolog_at (w0 @ u ''<?xml'' @ a @ u ''?>'' @ rest) = Some (skip_ws rest)"
proof -
  have lt: "u ''<?xml'' @ a @ u ''?>'' @ rest = 60 # tl (u ''<?xml'') @ a @ u ''?>'' @ rest"
    by (simp add: u_def)
  have sk: "skip_ws (w0 @ u ''<?xml'' @ a @ u ''?>'' @ rest) = u ''<?xml'' @ a @ u ''?>'' @ rest"
    unfolding skip_ws_append [OF w] by (subst lt, subst skip_ws_Cons [OF not_space_lt]) (simp add: u_def)
  have run: "a @ u ''?>'' @ rest = (a @ [63]) @ 62 # rest" by (simp add: u_def)
  have all: "\<forall>c \<in> set (a @ [63]). c \<noteq> 62" using a by auto
  have "takeWhile (\<lambda>c. c \<noteq> 62) ((a @ [63]) @ 62 # rest)
      = (a @ [63]) @ takeWhile (\<lambda>c. c \<noteq> 62) (62 # rest)"
    by (rule takeWhile_append2) (use all in blast)
  then have tw: "takeWhile (\<lambda>c. c \<noteq> 62) (a @ u ''?>'' @ rest) = a @ [63]"
    unfolding run by simp
  have "dropWhile (\<lambda>c. c \<noteq> 62) ((a @ [63]) @ 62 # rest)
      = dropWhile (\<lambda>c. c \<noteq> 62) (62 # rest)"
    by (rule dropWhile_append2) (use all in blast)
  then have dw: "dropWhile (\<lambda>c. c \<noteq> 62) (a @ u ''?>'' @ rest) = 62 # rest"
    unfolding run by simp
  show ?thesis
    unfolding xml_prolog_at_def sk match_lit_append by (simp add: tw dw)
qed

lemma after_first_comment:
  assumes "\<not> is_substr (u ''-->'') c"
  shows "after_first (u ''-->'') (c @ u ''-->'' @ rest) = Some rest"
  using assms
proof (induction c)
  case Nil
  then show ?case by (simp add: u_def)
next
  case (Cons x xs)
  from Cons.prems
  have "\<not> (take (length (u ''-->'')) (x # xs) = u ''-->'' \<or> is_substr (u ''-->'') xs)"
    by (simp only: is_substr.simps not_False_eq_True)
  then have no: "take (length (u ''-->'')) (x # xs) \<noteq> u ''-->''"
    and rest: "\<not> is_substr (u ''-->'') xs" by blast+
  have lit: "u ''-->'' = [45, 45, 62]" by (simp add: u_def)
  have key: "take (length (u ''-->'')) (x # (xs @ u ''-->'' @ rest)) \<noteq> u ''-->''"
  proof (cases xs)
    case Nil
    then show ?thesis by (simp add: lit)
  next
    case (Cons y ys)
    note xs = this
    show ?thesis
    proof (cases ys)
      case Nil
      with xs show ?thesis by (simp add: lit)
    next
      case (Cons z zs)
      with xs no show ?thesis by (simp add: lit)
    qed
  qed
  have "after_first (u ''-->'') ((x # xs) @ u ''-->'' @ rest)
      = after_first (u ''-->'') (xs @ u ''-->'' @ rest)"
    by (simp only: append_Cons after_first.simps key if_False)
  with Cons.IH [OF rest] show ?case by simp
qed

lemma top_comment_at_comment:
  assumes w: "list_all is_space w0" and c: "\<not> is_substr (u ''-->'') c"
  shows "top_comment_at (w0 @ u ''<!--'' @ c @ u ''-->'' @ rest) = Some (skip_ws rest)"
proof -
  have lt: "u ''<!--'' @ c @ u ''-->'' @ rest = 60 # tl (u ''<!--'') @ c @ u ''-->'' @ rest"
    by (simp add: u_def)
  have sk: "skip_ws (w0 @ u ''<!--'' @ c @ u ''-->'' @ rest) = u ''<!--'' @ c @ u ''-->'' @ rest"
    unfolding skip_ws_append [OF w] by (subst lt, subst skip_ws_Cons [OF not_space_lt]) (simp add: u_def)
  show ?thesis
    unfolding top_comment_at_def sk match_lit_append by (simp add: after_first_comment [OF c])
qed

lemma xml_prolog_at_comment:
  assumes w: "list_all is_space w0"
  shows "xml_prolog_at (w0 @ u ''<!--'' @ t) = None"
proof -
  have lt: "u ''<!--'' @ t = 60 # tl (u ''<!--'') @ t" by (simp add: u_def)
  have sk: "skip_ws (w0 @ u ''<!--'' @ t) = u ''<!--'' @ t"
    unfolding skip_ws_append [OF w] by (subst lt, subst skip_ws_Cons [OF not_space_lt]) (simp add: u_def)
  show ?thesis unfolding xml_prolog_at_def sk by (simp add: match_lit_def u_def)
qed

lemma xml_prolog_at_skip: "xml_prolog_at (skip_ws s) = xml_prolog_at s"
  by (simp add: xml_prolog_at_def skip_ws_idem)

lemma top_comment_at_skip: "top_comment_at (skip_ws s) = top_comment_at s"
  by (simp add: top_comment_at_def skip_ws_idem)

lemma match_lit_len:
  assumes "match_lit p s = Some r"
  shows "length r + length p = length s"
proof -
  from assms have t: "take (length p) s = p" and r: "r = drop (length p) s"
    by (auto simp: match_lit_def split: if_splits)
  have "length (take (length p) s) = length p" by (simp only: t)
  then have "length p \<le> length s" by simp
  with r show ?thesis by simp
qed

lemma after_first_len: "after_first p s = Some r \<Longrightarrow> length r \<le> length s"
  by (induction p s rule: after_first.induct) (auto split: if_splits)

lemma xml_prolog_at_len:
  assumes "xml_prolog_at s = Some r"
  shows "length r < length s"
proof -
  from assms obtain r1 g r2 where m: "match_lit (u ''<?xml'') (skip_ws s) = Some r1"
    and d: "dropWhile (\<lambda>c. c \<noteq> 62) r1 = g # r2" and r: "r = skip_ws r2"
    by (auto simp: xml_prolog_at_def Let_def split: option.splits list.splits if_splits)
  have "length (g # r2) \<le> length r1" unfolding d [symmetric] by (rule length_dropWhile_le)
  moreover note match_lit_len [OF m] length_skip_ws [of s] length_skip_ws [of r2]
  ultimately show ?thesis using r by (simp add: u_def)
qed

lemma top_comment_at_len:
  assumes "top_comment_at s = Some r"
  shows "length r < length s"
proof -
  from assms obtain r1 r2 where m: "match_lit (u ''<!--'') (skip_ws s) = Some r1"
    and d: "after_first (u ''-->'') r1 = Some r2" and r: "r = skip_ws r2"
    by (auto simp: top_comment_at_def split: option.splits)
  from match_lit_len [OF m] have "length r1 + 4 = length (skip_ws s)"
    by (simp add: u_def)
  moreover note after_first_len [OF d] length_skip_ws [of s] length_skip_ws [of r2]
  ultimately show ?thesis using r by simp
qed

lemma length_strip_bom: "length (strip_bom s) \<le> length s"
  by (simp add: strip_bom_def split: list.splits)

lemma strip_bom_same_length: "length (strip_bom s) = length s \<Longrightarrow> strip_bom s = s"
  by (simp add: strip_bom_def split: list.splits if_splits)

lemma normalize_prolog_fixed:
  assumes "normalize_prolog d = d"
  shows "strip_bom d = d \<and> xml_prolog_at d = None \<and> top_comment_at d = None"
proof -
  let ?a = "strip_bom d"
  let ?b = "sub_at_start xml_prolog_at ?a"
  have n: "sub_at_start top_comment_at ?b = d" using assms by (simp add: normalize_prolog_def)
  have l1: "length ?a \<le> length d" by (rule length_strip_bom)
  have l2: "length ?b \<le> length ?a"
    by (auto simp: sub_at_start_def split: option.splits dest: xml_prolog_at_len)
  have l3: "length (sub_at_start top_comment_at ?b) \<le> length ?b"
    by (auto simp: sub_at_start_def split: option.splits dest: top_comment_at_len)
  from n l1 l2 l3 have e: "length ?a = length d" "length ?b = length ?a"
    "length (sub_at_start top_comment_at ?b) = length ?b" by simp_all
  from e(1) have a: "?a = d" by (rule strip_bom_same_length)
  have x: "xml_prolog_at d = None"
  proof (cases "xml_prolog_at d")
    case (Some r)
    with e(2) a xml_prolog_at_len [OF Some] show ?thesis by (simp add: sub_at_start_def)
  qed simp
  then have b: "?b = d" using a by (simp add: sub_at_start_def)
  have c: "top_comment_at d = None"
  proof (cases "top_comment_at d")
    case (Some r)
    with e(3) b top_comment_at_len [OF Some] show ?thesis by (simp add: sub_at_start_def)
  qed simp
  from a x c show ?thesis by simp
qed

lemma not_space_bom: "\<not> is_space 65279"
  by (simp add: is_space_def)

lemma strip_bom_block:
  assumes w: "list_all is_space w0"
  shows "strip_bom (w0 @ 60 # t) = w0 @ 60 # t"
proof (cases w0)
  case Nil
  then show ?thesis by (simp add: strip_bom_def)
next
  case (Cons c cs)
  with w have "is_space c" by simp
  with not_space_bom have "c \<noteq> 65279" by blast
  with Cons show ?thesis by (simp add: strip_bom_def)
qed

subsection \<open>White space before the root does not change what is extracted\<close>

lemma search_from_Suc:
  "search_from m (Suc i) s = map_option (\<lambda>(a, b). (Suc a, Suc b)) (search_from m i s)"
  by (induction s arbitrary: i) (auto split: option.splits)

lemma re_search_skip:
  assumes "m (c # s) = None"
  shows "re_search m (c # s) = map_option (\<lambda>(a, b). (Suc a, Suc b)) (re_search m s)"
  using assms by (simp add: re_search_def search_from_Suc)

lemma slice_Suc: "slice (Suc a) (Suc b) (c # s) = slice a b s"
  by (simp add: slice_def)

lemma open_tag_at_space: "is_space c \<Longrightarrow> open_tag_at isw name (c # s) = None"
  using not_space_lt by (auto simp: open_tag_at_def)

lemma speak_close_at_space: "is_space c \<Longrightarrow> speak_close_at (c # s) = None"
  using not_space_lt by (auto simp: speak_close_at_def split: list.splits)

lemma speak_root_space:
  assumes "is_space c"
  shows "speak_root isw (c # s) = speak_root isw s"
proof -
  have o: "re_search (open_tag_at isw (u ''speak'')) (c # s)
      = map_option (\<lambda>(a, b). (Suc a, Suc b)) (re_search (open_tag_at isw (u ''speak'')) s)"
    by (rule re_search_skip) (rule open_tag_at_space [OF assms])
  have cl: "re_search speak_close_at (c # s)
      = map_option (\<lambda>(a, b). (Suc a, Suc b)) (re_search speak_close_at s)"
    by (rule re_search_skip) (rule speak_close_at_space [OF assms])
  show ?thesis
    unfolding speak_root_def o cl by (auto simp: slice_Suc split: option.splits)
qed

lemma speak_root_spaces: "list_all is_space w \<Longrightarrow> speak_root isw (w @ s) = speak_root isw s"
  by (induction w) (simp_all add: speak_root_space)

lemma speak_root_skip_ws: "speak_root isw (skip_ws s) = speak_root isw s"
proof -
  from skip_ws_split [of s] obtain w where w: "list_all is_space w" "s = w @ skip_ws s" by blast
  from speak_root_spaces [OF w(1), of isw "skip_ws s"] w(2) show ?thesis by simp
qed

subsection \<open>A prolog in front of a document\<close>

text \<open>After the byte-order mark is gone, normalising a prolog leaves the document, or
  the document without its leading white space.\<close>

lemma normalize_after_bom:
  assumes d: "normalize_prolog doc = doc" and dk: "decl_ok decl" and ck: "comment_ok com"
  shows "sub_at_start top_comment_at
           (sub_at_start xml_prolog_at (with_prolog False decl com doc))
         = doc
       \<or> sub_at_start top_comment_at
           (sub_at_start xml_prolog_at (with_prolog False decl com doc))
         = skip_ws doc"
proof -
  from normalize_prolog_fixed [OF d]
  have x: "xml_prolog_at doc = None" and c: "top_comment_at doc = None" by simp_all
  show ?thesis
  proof (cases decl)
    case None
    note dn = this
    show ?thesis
    proof (cases com)
      case None
      with dn x c show ?thesis by (simp add: with_prolog_def sub_at_start_def)
    next
      case (Some cm)
      obtain w0 cc w1 where cm: "cm = (w0, cc, w1)" by (cases cm) auto
      from ck Some cm have w0: "list_all is_space w0" and w1: "list_all is_space w1"
        and cc: "\<not> is_substr (u ''-->'') cc" by (simp_all add: comment_ok_def)
      have wp: "with_prolog False decl com doc = w0 @ u ''<!--'' @ cc @ u ''-->'' @ (w1 @ doc)"
        using dn Some cm by (simp add: with_prolog_def top_comment_def)
      have "xml_prolog_at (with_prolog False decl com doc) = None"
        unfolding wp by (rule xml_prolog_at_comment [OF w0])
      moreover have "top_comment_at (with_prolog False decl com doc) = Some (skip_ws (w1 @ doc))"
        unfolding wp by (rule top_comment_at_comment [OF w0 cc])
      ultimately show ?thesis by (simp add: sub_at_start_def skip_ws_append [OF w1])
    qed
  next
    case (Some dc)
    obtain v0 a v1 where dc: "dc = (v0, a, v1)" by (cases dc) auto
    from dk Some dc have v0: "list_all is_space v0" and v1: "list_all is_space v1"
      and a: "62 \<notin> set a" by (simp_all add: decl_ok_def)
    show ?thesis
    proof (cases com)
      case None
      have wp: "with_prolog False decl com doc = v0 @ u ''<?xml'' @ a @ u ''?>'' @ (v1 @ doc)"
        using Some dc None by (simp add: with_prolog_def xml_decl_def)
      have "xml_prolog_at (with_prolog False decl com doc) = Some (skip_ws doc)"
        unfolding wp using xml_prolog_at_decl [OF v0 a, of "v1 @ doc"]
        by (simp add: skip_ws_append [OF v1])
      moreover have "top_comment_at (skip_ws doc) = None" using c by (simp add: top_comment_at_skip)
      ultimately show ?thesis by (simp add: sub_at_start_def)
    next
      case (Some cm)
      note cs = this
      obtain w0 cc w1 where cm: "cm = (w0, cc, w1)" by (cases cm) auto
      from ck Some cm have w0: "list_all is_space w0" and w1: "list_all is_space w1"
        and cc: "\<not> is_substr (u ''-->'') cc" by (simp_all add: comment_ok_def)
      let ?rest = "w0 @ u ''<!--'' @ cc @ u ''-->'' @ (w1 @ doc)"
      have wp: "with_prolog False decl com doc = v0 @ u ''<?xml'' @ a @ u ''?>'' @ (v1 @ ?rest)"
        using \<open>decl = Some dc\<close> dc cs cm by (simp add: with_prolog_def xml_decl_def top_comment_def)
      have "xml_prolog_at (with_prolog False decl com doc) = Some (skip_ws ?rest)"
        unfolding wp using xml_prolog_at_decl [OF v0 a, of "v1 @ ?rest"]
        by (simp only: skip_ws_append [OF v1])
      moreover have "top_comment_at (skip_ws ?rest) = Some (skip_ws (w1 @ doc))"
        unfolding top_comment_at_skip by (rule top_comment_at_comment [OF w0 cc])
      ultimately show ?thesis by (simp add: sub_at_start_def skip_ws_append [OF w1])
    qed
  qed
qed

lemma strip_bom_with_prolog:
  assumes d: "normalize_prolog doc = doc" and dk: "decl_ok decl" and ck: "comment_ok com"
  shows "strip_bom (with_prolog bom decl com doc) = with_prolog False decl com doc"
proof (cases bom)
  case True
  then show ?thesis by (simp add: with_prolog_def strip_bom_def)
next
  case False
  from normalize_prolog_fixed [OF d] have sd: "strip_bom doc = doc" by simp
  have "strip_bom (with_prolog False decl com doc) = with_prolog False decl com doc"
  proof (cases decl)
    case (Some dc)
    obtain v0 a v1 where dc: "dc = (v0, a, v1)" by (cases dc) auto
    from dk Some dc have v0: "list_all is_space v0" by (simp add: decl_ok_def)
    have "with_prolog False decl com doc
        = v0 @ 60 # (u ''?xml'' @ a @ u ''?>'' @ v1
            @ (case com of None \<Rightarrow> [] | Some c \<Rightarrow> top_comment c) @ doc)"
      using Some dc by (simp add: with_prolog_def xml_decl_def u_def)
    then show ?thesis by (simp only: strip_bom_block [OF v0])
  next
    case None
    note dn = this
    show ?thesis
    proof (cases com)
      case None
      with dn sd show ?thesis by (simp add: with_prolog_def)
    next
      case (Some cm)
      obtain w0 cc w1 where cm: "cm = (w0, cc, w1)" by (cases cm) auto
      from ck Some cm have w0: "list_all is_space w0" by (simp add: comment_ok_def)
      have "with_prolog False decl com doc = w0 @ 60 # (u ''!--'' @ cc @ u ''-->'' @ w1 @ doc)"
        using dn Some cm by (simp add: with_prolog_def top_comment_def u_def)
      then show ?thesis by (simp only: strip_bom_block [OF w0])
    qed
  qed
  with False show ?thesis by simp
qed

lemma extract_with_prolog:
  assumes d: "normalize_prolog doc = doc" and dk: "decl_ok decl" and ck: "comment_ok com"
  shows "extract_speak_body isw (with_prolog bom decl com doc) = extract_speak_body isw doc"
proof -
  have "normalize_prolog (with_prolog bom decl com doc)
      = sub_at_start top_comment_at (sub_at_start xml_prolog_at (with_prolog False decl com doc))"
    by (simp add: normalize_prolog_def strip_bom_with_prolog [OF d dk ck])
  with normalize_after_bom [OF d dk ck]
  have "normalize_prolog (with_prolog bom decl com doc) = doc
      \<or> normalize_prolog (with_prolog bom decl com doc) = skip_ws doc" by simp
  then have "speak_root isw (normalize_prolog (with_prolog bom decl com doc)) = speak_root isw doc"
    by (auto simp: speak_root_skip_ws)
  then show ?thesis by (simp add: extract_speak_body_root d)
qed

subsection \<open>A document without its root\<close>

lemma search_from_None:
  "search_from m i s = None \<longleftrightarrow> (\<forall>j\<le>length s. m (drop j s) = None)"
proof (induction s arbitrary: i)
  case Nil
  then show ?case by (simp split: option.splits)
next
  case (Cons c cs)
  have "(\<forall>j\<le>length (c # cs). m (drop j (c # cs)) = None)
      \<longleftrightarrow> m (c # cs) = None \<and> (\<forall>j\<le>length cs. m (drop j cs) = None)"
  proof
    assume h: "\<forall>j\<le>length (c # cs). m (drop j (c # cs)) = None"
    from h have "m (drop 0 (c # cs)) = None" by blast
    moreover have "m (drop j cs) = None" if "j \<le> length cs" for j
      using h [rule_format, of "Suc j"] that by simp
    ultimately show "m (c # cs) = None \<and> (\<forall>j\<le>length cs. m (drop j cs) = None)" by simp
  next
    assume h: "m (c # cs) = None \<and> (\<forall>j\<le>length cs. m (drop j cs) = None)"
    show "\<forall>j\<le>length (c # cs). m (drop j (c # cs)) = None"
    proof (intro allI impI)
      fix j assume "j \<le> length (c # cs)"
      then show "m (drop j (c # cs)) = None" using h by (cases j) simp_all
    qed
  qed
  with Cons.IH [of "Suc i"] show ?case by (auto split: option.splits)
qed

lemma matches_nowhere_iff: "matches_nowhere m s \<longleftrightarrow> (\<forall>j\<le>length s. m (drop j s) = None)"
  by (auto simp: matches_nowhere_def list_all_iff)

lemma re_search_None: "re_search m s = None \<longleftrightarrow> matches_nowhere m s"
  by (simp add: re_search_def search_from_None matches_nowhere_iff)

lemma matches_nowhere_drop:
  assumes "matches_nowhere m s"
  shows "matches_nowhere m (drop k s)"
proof -
  have "m (drop j (drop k s)) = None" for j
  proof (cases "j + k \<le> length s")
    case True
    with assms show ?thesis by (simp add: matches_nowhere_iff add.commute)
  next
    case False
    then have "drop (j + k) s = drop (length s) s" by simp
    moreover from assms have "m (drop (length s) s) = None"
      unfolding matches_nowhere_iff by blast
    ultimately show ?thesis by (simp add: add.commute)
  qed
  then show ?thesis by (simp add: matches_nowhere_iff)
qed

lemma drop_trans: "\<exists>k. r = drop k s \<Longrightarrow> \<exists>k. t = drop k r \<Longrightarrow> \<exists>k. t = drop k s"
  by (metis drop_drop)

lemma skip_ws_drop: "\<exists>k. skip_ws s = drop k s"
  unfolding skip_ws_def by (metis dropWhile_eq_drop)

lemma after_first_drop: "after_first p s = Some r \<Longrightarrow> \<exists>k. r = drop k s"
proof (induction p s rule: after_first.induct)
  case (1 p)
  then show ?case by (auto split: if_splits)
next
  case (2 p c cs)
  show ?case
  proof (cases "take (length p) (c # cs) = p")
    case True
    with 2 have "r = drop (length p) (c # cs)" by simp
    then show ?thesis by blast
  next
    case False
    with 2 obtain k where "r = drop k cs" by auto
    then have "r = drop (Suc k) (c # cs)" by simp
    then show ?thesis by blast
  qed
qed

lemma xml_prolog_at_drop:
  assumes "xml_prolog_at s = Some r"
  shows "\<exists>k. r = drop k s"
proof -
  from assms obtain r1 g r2 where m: "match_lit (u ''<?xml'') (skip_ws s) = Some r1"
    and d: "dropWhile (\<lambda>c. c \<noteq> 62) r1 = g # r2" and r: "r = skip_ws r2"
    by (auto simp: xml_prolog_at_def Let_def split: option.splits list.splits if_splits)
  have 1: "\<exists>k. skip_ws s = drop k s" by (rule skip_ws_drop)
  from m have 2: "\<exists>k. r1 = drop k (skip_ws s)"
    by (auto simp: match_lit_def split: if_splits)
  have "g # r2 = drop (length (takeWhile (\<lambda>c. c \<noteq> 62) r1)) r1"
    unfolding d [symmetric] by (rule dropWhile_eq_drop)
  then have "r2 = drop (Suc (length (takeWhile (\<lambda>c. c \<noteq> 62) r1))) r1"
    by (metis drop_Suc tl_drop list.sel(3))
  then have 3: "\<exists>k. r2 = drop k r1" by blast
  have 4: "\<exists>k. r = drop k r2" unfolding r by (rule skip_ws_drop)
  from drop_trans [OF drop_trans [OF drop_trans [OF 1 2] 3] 4] show ?thesis .
qed

lemma top_comment_at_drop:
  assumes "top_comment_at s = Some r"
  shows "\<exists>k. r = drop k s"
proof -
  from assms obtain r1 r2 where m: "match_lit (u ''<!--'') (skip_ws s) = Some r1"
    and d: "after_first (u ''-->'') r1 = Some r2" and r: "r = skip_ws r2"
    by (auto simp: top_comment_at_def split: option.splits)
  have 1: "\<exists>k. skip_ws s = drop k s" by (rule skip_ws_drop)
  from m have 2: "\<exists>k. r1 = drop k (skip_ws s)"
    by (auto simp: match_lit_def split: if_splits)
  have 3: "\<exists>k. r2 = drop k r1" by (rule after_first_drop [OF d])
  have 4: "\<exists>k. r = drop k r2" unfolding r by (rule skip_ws_drop)
  from drop_trans [OF drop_trans [OF drop_trans [OF 1 2] 3] 4] show ?thesis .
qed

lemma sub_at_start_drop:
  assumes "\<And>s r. m s = Some r \<Longrightarrow> \<exists>k. r = drop k s"
  shows "\<exists>k. sub_at_start m s = drop k s"
proof (cases "m s")
  case None
  then have "sub_at_start m s = drop 0 s" by (simp add: sub_at_start_def)
  then show ?thesis by blast
next
  case (Some r)
  with assms [OF Some] show ?thesis by (simp add: sub_at_start_def)
qed

lemma strip_bom_drop: "\<exists>k. strip_bom s = drop k s"
proof (cases "strip_bom s = s")
  case True
  then have "strip_bom s = drop 0 s" by simp
  then show ?thesis by blast
next
  case False
  then have "strip_bom s = drop 1 s" by (auto simp: strip_bom_def split: list.splits if_splits)
  then show ?thesis by blast
qed

lemma normalize_prolog_drop: "\<exists>k. normalize_prolog s = drop k s"
proof -
  have 1: "\<exists>k. strip_bom s = drop k s" by (rule strip_bom_drop)
  have 2: "\<exists>k. sub_at_start xml_prolog_at (strip_bom s) = drop k (strip_bom s)"
    by (rule sub_at_start_drop) (rule xml_prolog_at_drop)
  have 3: "\<exists>k. normalize_prolog s = drop k (sub_at_start xml_prolog_at (strip_bom s))"
    unfolding normalize_prolog_def by (rule sub_at_start_drop) (rule top_comment_at_drop)
  from drop_trans [OF drop_trans [OF 1 2] 3] show ?thesis .
qed

lemma extract_no_root:
  assumes "matches_nowhere (open_tag_at isw (u ''speak'')) doc \<or> matches_nowhere speak_close_at doc"
  shows "extract_speak_body isw doc = Inl No_Speak_Root"
proof -
  obtain k where k: "normalize_prolog doc = drop k doc" using normalize_prolog_drop by blast
  from assms
  have "matches_nowhere (open_tag_at isw (u ''speak'')) (drop k doc)
      \<or> matches_nowhere speak_close_at (drop k doc)"
    by (auto intro: matches_nowhere_drop)
  then have "re_search (open_tag_at isw (u ''speak'')) (drop k doc) = None
      \<or> re_search speak_close_at (drop k doc) = None"
    by (simp add: re_search_None)
  then show ?thesis
    by (auto simp: extract_speak_body_root k speak_root_def split: option.splits)
qed

text \<open>The error is raised in no other case.\<close>

lemma extract_error_iff:
  "extract_speak_body isw doc = Inl No_Speak_Root
     \<longleftrightarrow> matches_nowhere (open_tag_at isw (u ''speak'')) (normalize_prolog doc)
         \<or> matches_nowhere speak_close_at (normalize_prolog doc)"
  by (auto simp: extract_speak_body_root speak_root_def re_search_None [symmetric]
      split: option.splits)

text \<open>
  C6, as stated, fails in both halves. A text in which the closing root tag stands
  before the opening one has no pair of root tags, yet it is not refused: it is split
  into one part with an empty body, and its voice block is lost. And a document that
  begins with a comment of its own is split differently once another comment is put in
  front of it, because only the first comment is removed and the root tags are then
  found inside the second.
\<close>

theorem prolog_and_root_counterexample:
  "split_ssml_by_voice ascii_word (u ''</speak><speak><voice>a</voice>'') 2
     = Inr [u ''<speak>\<newline>\<newline></speak>'']
   \<and> comment_ok (Some ([], u ''c'', []))
   \<and> split_ssml_by_voice ascii_word (u ''<!--<speak>x</speak>--><speak>y</speak>'') 2
     = Inr [u ''<speak>\<newline>y\<newline></speak>'']
   \<and> split_ssml_by_voice ascii_word
        (with_prolog False None (Some ([], u ''c'', []))
           (u ''<!--<speak>x</speak>--><speak>y</speak>'')) 2
     = Inr [u ''<speak>\<newline>x\<newline></speak>'']"
proof -
  have a: "split_ssml_by_voice ascii_word (u ''</speak><speak><voice>a</voice>'') 2
     = Inr [u ''<speak>\<newline>\<newline></speak>'']"
    by (simp add: split_ssml_by_voice_def regex_eval voice_blocks_of_def findall_voice.simps
        part_text_def)
  have b: "comment_ok (Some ([], u ''c'', []))" by (simp add: comment_ok_def u_def)
  have c: "split_ssml_by_voice ascii_word (u ''<!--<speak>x</speak>--><speak>y</speak>'') 2
     = Inr [u ''<speak>\<newline>y\<newline></speak>'']"
    by (simp add: split_ssml_by_voice_def regex_eval voice_blocks_of_def findall_voice.simps
        part_text_def)
  have d: "split_ssml_by_voice ascii_word
        (with_prolog False None (Some ([], u ''c'', []))
           (u ''<!--<speak>x</speak>--><speak>y</speak>'')) 2
     = Inr [u ''<speak>\<newline>x\<newline></speak>'']"
    by (simp add: split_ssml_by_voice_def regex_eval voice_blocks_of_def findall_voice.simps
        part_text_def with_prolog_def top_comment_def)
  from a b c d show ?thesis by (intro conjI)
qed

text \<open>
  C6, amended. A document that normalisation leaves unchanged (it has no leading
  byte-order mark, declaration or comment of its own) is split into the same parts when
  a well-formed prolog is put in front of it: an optional byte-order mark, an optional
  XML declaration and an optional comment, in this order. A document in which the
  opening root tag or the closing root tag matches nowhere is refused with the error of
  the missing root. And the error is raised in no other case than that one of the two
  tags matches nowhere in the normalised text: the two tags are searched independently
  of each other, and their order is not checked.
\<close>

theorem prolog_ignored_and_missing_root_fails:
  "(normalize_prolog doc = doc \<and> decl_ok decl \<and> comment_ok com \<longrightarrow>
      split_ssml_by_voice isw (with_prolog bom decl com doc) M = split_ssml_by_voice isw doc M)
   \<and> (matches_nowhere (open_tag_at isw (u ''speak'')) doc \<or> matches_nowhere speak_close_at doc \<longrightarrow>
      split_ssml_by_voice isw doc M = Inl No_Speak_Root)
   \<and> (split_ssml_by_voice isw doc M = Inl No_Speak_Root)
       = (matches_nowhere (open_tag_at isw (u ''speak'')) (normalize_prolog doc)
          \<or> matches_nowhere speak_close_at (normalize_prolog doc))"
proof (intro conjI impI)
  assume "normalize_prolog doc = doc \<and> decl_ok decl \<and> comment_ok com"
  then have "extract_speak_body isw (with_prolog bom decl com doc) = extract_speak_body isw doc"
    by (simp add: extract_with_prolog)
  then show "split_ssml_by_voice isw (with_prolog bom decl com doc) M = split_ssml_by_voice isw doc M"
    by (simp add: split_ssml_by_voice_def)
next
  assume "matches_nowhere (open_tag_at isw (u ''speak'')) doc \<or> matches_nowhere speak_close_at doc"
  then have "extract_speak_body isw doc = Inl No_Speak_Root" by (rule extract_no_root)
  then show "split_ssml_by_voice isw doc M = Inl No_Speak_Root"
    by (simp add: split_ssml_by_voice_def)
next
  have "(split_ssml_by_voice isw doc M = Inl No_Speak_Root)
      = (extract_speak_body isw doc = Inl No_Speak_Root)"
    by (auto simp: split_ssml_by_voice_def split: sum.splits)
  then show "(split_ssml_by_voice isw doc M = Inl No_Speak_Root)
       = (matches_nowhere (open_tag_at isw (u ''speak'')) (normalize_prolog doc)
          \<or> matches_nowhere speak_close_at (normalize_prolog doc))"
    by (simp only: extract_error_iff)
qed

theorem prolog_ignored_and_missing_root_fails_witness:
  "normalize_prolog (u ''<speak><voice>a</voice></speak>'') = u ''<speak><voice>a</voice></speak>''
   \<and> decl_ok (Some ([], u '' version=1'', [10]))
   \<and> comment_ok (Some ([], u '' hi '', [10, 32]))
   \<and> split_ssml_by_voice ascii_word
        (with_prolog True (Some ([], u '' version=1'', [10])) (Some ([], u '' hi '', [10, 32]))
           (u ''<speak><voice>a</voice></speak>'')) 2
       = split_ssml_by_voice ascii_word (u ''<speak><voice>a</voice></speak>'') 2
   \<and> matches_nowhere speak_close_at (u ''<speak>x'')
   \<and> split_ssml_by_voice ascii_word (u ''<speak>x'') 2 = Inl No_Speak_Root"
proof -
  have h1: "normalize_prolog (u ''<speak><voice>a</voice></speak>'')
      = u ''<speak><voice>a</voice></speak>''"
    by (simp add: regex_eval)
  have h2: "decl_ok (Some ([], u '' version=1'', [10]))"
    by (simp add: decl_ok_def is_space_def u_def)
  have h3: "comment_ok (Some ([], u '' hi '', [10, 32]))"
    by (simp add: comment_ok_def is_space_def u_def)
  have h4: "matches_nowhere speak_close_at (u ''<speak>x'')"
    by (simp add: matches_nowhere_def regex_eval)
  from prolog_ignored_and_missing_root_fails
         [of "u ''<speak><voice>a</voice></speak>''" "Some ([], u '' version=1'', [10])"
             "Some ([], u '' hi '', [10, 32])" ascii_word True 2]
       h1 h2 h3
  have c1: "split_ssml_by_voice ascii_word
        (with_prolog True (Some ([], u '' version=1'', [10])) (Some ([], u '' hi '', [10, 32]))
           (u ''<speak><voice>a</voice></speak>'')) 2
       = split_ssml_by_voice ascii_word (u ''<speak><voice>a</voice></speak>'') 2"
    by blast
  from prolog_ignored_and_missing_root_fails [of "u ''<speak>x''" None None ascii_word False 2] h4
  have c2: "split_ssml_by_voice ascii_word (u ''<speak>x'') 2 = Inl No_Speak_Root"
    by blast
  show ?thesis
    by (rule conjI, rule h1, rule conjI, rule h2, rule conjI, rule h3, rule conjI, rule c1,
        rule conjI, rule h4, rule c2)
qed

section \<open>The blocks are the matches, the gaps are left out: proofs\<close>

lemma drop_by_length:
  assumes "r = drop k t"
  shows "r = drop (length t - length r) t"
proof (cases "k \<le> length t")
  case True
  with assms have "length t - length r = k" by simp
  with assms show ?thesis by simp
next
  case False
  with assms show ?thesis by simp
qed

lemma match_ci_drop: "match_ci p s = Some r \<Longrightarrow> \<exists>k. r = drop k s"
proof (induction p s rule: match_ci.induct)
  case (1 s)
  then have "r = drop 0 s" by simp
  then show ?case by blast
next
  case (2 p ps)
  then show ?case by simp
next
  case (3 p ps c cs)
  then obtain k where "r = drop k cs" by (auto split: if_splits)
  then have "r = drop (Suc k) (c # cs)" by simp
  then show ?case by blast
qed

lemma open_tag_at_drop:
  assumes "open_tag_at isw name s = Some r"
  shows "\<exists>k. r = drop k s"
proof -
  from assms obtain c t r2 g where s: "s = c # t"
    and m: "match_ci name (skip_ws t) = Some r2"
    and d: "dropWhile (\<lambda>c. c \<noteq> 62) r2 = g # r"
    by (auto simp: open_tag_at_def Let_def split: list.splits if_splits option.splits)
  have 0: "\<exists>k. t = drop k s" using s by (metis drop0 drop_Suc_Cons)
  have 1: "\<exists>k. skip_ws t = drop k t" by (rule skip_ws_drop)
  have 2: "\<exists>k. r2 = drop k (skip_ws t)" by (rule match_ci_drop [OF m])
  have "g # r = drop (length (takeWhile (\<lambda>c. c \<noteq> 62) r2)) r2"
    unfolding d [symmetric] by (rule dropWhile_eq_drop)
  then have "r = drop (Suc (length (takeWhile (\<lambda>c. c \<noteq> 62) r2))) r2"
    by (metis drop_Suc tl_drop list.sel(3))
  then have 3: "\<exists>k. r = drop k r2" by blast
  from drop_trans [OF drop_trans [OF drop_trans [OF 0 1] 2] 3] show ?thesis .
qed

lemma voice_block_at_drop:
  assumes "voice_block_at isw s = Some r"
  shows "r = drop (length s - length r) s"
proof -
  from assms obtain r1 cs ce where o: "open_tag_at isw (u ''voice'') s = Some r1"
    and r: "r = drop ce r1"
    by (auto simp: voice_block_at_def split: option.splits)
  from r have "\<exists>k. r = drop k r1" by blast
  from drop_trans [OF open_tag_at_drop [OF o] this] obtain k where "r = drop k s" by blast
  then show ?thesis by (rule drop_by_length)
qed

lemma search_from_Some:
  assumes "search_from m i s = Some (a, e)"
  shows "i \<le> a \<and> a - i \<le> length s
       \<and> list_all (\<lambda>j. m (drop j s) = None) [0..<a - i]
       \<and> (\<exists>r. m (drop (a - i) s) = Some r \<and> e = a + (length (drop (a - i) s) - length r))"
  using assms
proof (induction s arbitrary: i)
  case Nil
  then show ?case by (auto split: option.splits)
next
  case (Cons c cs)
  show ?case
  proof (cases "m (c # cs)")
    case (Some r)
    with Cons.prems show ?thesis by auto
  next
    case None
    with Cons.prems have "search_from m (Suc i) cs = Some (a, e)" by simp
    from Cons.IH [OF this]
    have ih: "Suc i \<le> a" "a - Suc i \<le> length cs"
      "list_all (\<lambda>j. m (drop j cs) = None) [0..<a - Suc i]"
      "\<exists>r. m (drop (a - Suc i) cs) = Some r \<and> e = a + (length (drop (a - Suc i) cs) - length r)"
      by blast+
    from ih(1) have e: "a - i = Suc (a - Suc i)" by simp
    have "list_all (\<lambda>j. m (drop j (c # cs)) = None) [0..<Suc (a - Suc i)]"
    proof -
      have "m (drop j (c # cs)) = None" if "j < Suc (a - Suc i)" for j
      proof (cases j)
        case 0
        with None show ?thesis by simp
      next
        case (Suc j')
        with that have "j' < a - Suc i" by simp
        with ih(3) have "m (drop j' cs) = None" by (simp add: list_all_iff)
        with Suc show ?thesis by simp
      qed
      then show ?thesis by (simp add: list_all_iff)
    qed
    with ih show ?thesis unfolding e by auto
  qed
qed

lemma findall_voice_layout:
  "\<exists>gaps. voice_layout isw s gaps (findall_voice isw s)"
proof (induction isw s rule: findall_voice.induct)
  case (1 isw s)
  show ?case
  proof (cases "re_search (voice_block_at isw) s")
    case None
    then have "findall_voice isw s = []" by (simp add: findall_voice.simps)
    moreover from None have "matches_nowhere (voice_block_at isw) s" by (simp add: re_search_None)
    ultimately have "voice_layout isw s [s] (findall_voice isw s)" by simp
    then show ?thesis by blast
  next
    case (Some ae)
    obtain a e where ae: "ae = (a, e)" by (cases ae)
    with Some have rs: "re_search (voice_block_at isw) s = Some (a, e)" by simp
    then have "search_from (voice_block_at isw) 0 s = Some (a, e)" by (simp add: re_search_def)
    from search_from_Some [OF this] obtain r
      where al: "a \<le> length s"
        and gap: "list_all (\<lambda>j. voice_block_at isw (drop j s) = None) [0..<a]"
        and m: "voice_block_at isw (drop a s) = Some r"
        and e: "e = a + (length (drop a s) - length r)"
      by auto
    from voice_block_at_drop [OF m] have r: "r = drop (length (drop a s) - length r) (drop a s)" .
    from voice_block_at_len [OF m] have lt: "length r < length (drop a s)" .
    from e lt al have el: "a < e" "e \<le> length s" by simp_all
    from r e have rd: "r = drop e s" by (simp add: add.commute)
    let ?g = "take a s" and ?b = "slice a e s"
    have lg: "length ?g = a" using al by simp
    have lb: "length ?b = e - a" using el by (simp add: slice_def)
    have fa: "findall_voice isw s = ?b # findall_voice isw (drop e s)"
      using rs by (subst findall_voice.simps) simp
    from "1.IH" [OF rs refl] obtain gaps
      where ih: "voice_layout isw (drop e s) gaps (findall_voice isw (drop e s))" by blast
    have "voice_layout isw s (?g # gaps) (?b # findall_voice isw (drop e s))"
      unfolding voice_layout.simps lg lb
      using gap m rd el ih by (simp add: slice_def)
    with fa show ?thesis by metis
  qed
qed

text \<open>
  C10. For a body in which \<open>findall\<close> finds at least one voice block, and any
  \<open>max_voices\<close> (a value below 1 acts as 1). The body is laid out as gap, block,
  \<open>\<dots>\<close>, block, gap, the blocks being the blocks found: each is a match of the voice
  pattern, from an opening voice tag to the first closing voice tag after it, and no
  match starts inside a gap. The \<open>i\<close>-th part is the root open tag, a newline, the
  newline-joined \<open>i\<close>-th run of consecutive blocks, a newline and the root close tag:
  the gaps, the body text before, between and after the blocks, are in no part. And any
  document with the same root tags and the same blocks, whatever its gaps hold, is split
  into the same parts.
\<close>

theorem split_parts_are_runs_of_blocks:
  assumes ex: "extract_speak_body isw ssml_text = Inr (open_tag, body, close_tag)"
    and ne: "findall_voice isw body \<noteq> []"
  shows "\<exists>parts gaps. split_ssml_by_voice isw ssml_text M = Inr parts
           \<and> voice_layout isw body gaps (findall_voice isw body)
           \<and> (\<forall>i. i < length parts \<longrightarrow>
                 take (nat (max 1 M)) (drop (i * nat (max 1 M)) (findall_voice isw body)) \<noteq> []
                 \<and> parts ! i =
                     open_tag @ [10]
                       @ join_nl (take (nat (max 1 M)) (drop (i * nat (max 1 M)) (findall_voice isw body)))
                       @ [10] @ close_tag)
           \<and> length parts = (length (findall_voice isw body) + nat (max 1 M) - 1) div nat (max 1 M)
           \<and> (\<forall>text' body'.
                 extract_speak_body isw text' = Inr (open_tag, body', close_tag)
                 \<and> findall_voice isw body' = findall_voice isw body
                 \<longrightarrow> split_ssml_by_voice isw text' M = Inr parts)"
proof -
  define k where "k = nat (max 1 M)"
  have kp: "0 < k" by (simp add: k_def)
  let ?vbs = "findall_voice isw body"
  let ?parts = "map (part_text open_tag close_tag) (chunks k ?vbs)"
  from ne have vb: "voice_blocks_of isw body = ?vbs" by (simp add: voice_blocks_of_def)
  have sp: "split_ssml_by_voice isw ssml_text M = Inr ?parts"
    using split_ssml_by_voice_chunks [OF ex, of M] vb by (simp add: k_def)
  obtain gaps where lay: "voice_layout isw body gaps ?vbs"
    using findall_voice_layout by blast
  have nth: "take k (drop (i * k) ?vbs) \<noteq> []
      \<and> ?parts ! i = open_tag @ [10] @ join_nl (take k (drop (i * k) ?vbs)) @ [10] @ close_tag"
    if i: "i < length ?parts" for i
  proof -
    from i have i': "i < length (chunks k ?vbs)" by simp
    have c: "chunks k ?vbs ! i = take k (drop (i * k) ?vbs)" by (rule nth_chunks [OF kp i'])
    have "list_all (\<lambda>g. g \<noteq> [] \<and> length g \<le> k) (chunks k ?vbs)" by (rule chunks_bounded [OF kp])
    with i' have "chunks k ?vbs ! i \<noteq> []" by (simp add: list_all_length)
    with c i' show ?thesis by (simp add: part_text_def)
  qed
  have len: "length ?parts = (length ?vbs + k - 1) div k"
    using kp by (simp add: length_chunks)
  have other: "split_ssml_by_voice isw text' M = Inr ?parts"
    if "extract_speak_body isw text' = Inr (open_tag, body', close_tag)
        \<and> findall_voice isw body' = ?vbs" for text' body'
  proof -
    from that ne have "voice_blocks_of isw body' = ?vbs" by (simp add: voice_blocks_of_def)
    with that split_ssml_by_voice_chunks [of isw text' open_tag body' close_tag M]
    show ?thesis by (simp add: k_def)
  qed
  from sp lay nth len other show ?thesis unfolding k_def by blast
qed

text \<open>
  In the document of the example the gaps are \<open>x\<close>, \<open>y\<close>, \<open>z\<close> and the empty text
  after the last block.
\<close>

lemma example_layout:
  "voice_layout ascii_word (u ''x<voice>a</voice>y<voice>b</voice>z<voice>c</voice>'')
     [u ''x'', u ''y'', u ''z'', []]
     [u ''<voice>a</voice>'', u ''<voice>b</voice>'', u ''<voice>c</voice>'']"
  by (simp add: regex_eval matches_nowhere_def)

theorem split_parts_are_runs_of_blocks_witness:
  "extract_speak_body ascii_word (u ''<speak>x<voice>a</voice>y<voice>b</voice>z<voice>c</voice></speak>'')
     = Inr (u ''<speak>'', u ''x<voice>a</voice>y<voice>b</voice>z<voice>c</voice>'', u ''</speak>'')
   \<and> findall_voice ascii_word (u ''x<voice>a</voice>y<voice>b</voice>z<voice>c</voice>'') \<noteq> []
   \<and> (\<exists>parts gaps. split_ssml_by_voice ascii_word (u ''<speak>x<voice>a</voice>y<voice>b</voice>z<voice>c</voice></speak>'') 2 = Inr parts
         \<and> voice_layout ascii_word (u ''x<voice>a</voice>y<voice>b</voice>z<voice>c</voice>'') gaps
              (findall_voice ascii_word (u ''x<voice>a</voice>y<voice>b</voice>z<voice>c</voice>''))
         \<and> (\<forall>i. i < length parts \<longrightarrow>
               take (nat (max 1 2)) (drop (i * nat (max 1 2)) (findall_voice ascii_word (u ''x<voice>a</voice>y<voice>b</voice>z<voice>c</voice>''))) \<noteq> []
               \<and> parts ! i =
                   u ''<speak>'' @ [10]
                     @ join_nl (take (nat (max 1 2)) (drop (i * nat (max 1 2)) (findall_voice ascii_word (u ''x<voice>a</voice>y<voice>b</voice>z<voice>c</voice>''))))
                     @ [10] @ u ''</speak>'')
         \<and> length parts
             = (length (findall_voice ascii_word (u ''x<voice>a</voice>y<voice>b</voice>z<voice>c</voice>'')) + nat (max 1 2) - 1) div nat (max 1 2)
         \<and> (\<forall>text' body'.
               extract_speak_body ascii_word text' = Inr (u ''<speak>'', body', u ''</speak>'')
               \<and> findall_voice ascii_word body' = findall_voice ascii_word (u ''x<voice>a</voice>y<voice>b</voice>z<voice>c</voice>'')
               \<longrightarrow> split_ssml_by_voice ascii_word text' 2 = Inr parts))"
proof -
  have ne: "findall_voice ascii_word (u ''x<voice>a</voice>y<voice>b</voice>z<voice>c</voice>'') \<noteq> []"
    by (simp add: example_findall)
  show ?thesis
    by (rule conjI, rule example_extract, rule conjI, rule ne,
        rule split_parts_are_runs_of_blocks [OF example_extract ne])
qed

end
